theory Spec2Isabelle
  imports Main "HOL-Library.Sublist"
begin

section \<open>Characters and strings of the host language\<close>

text \<open>
  The plugin is TypeScript. A string is modelled as a list of 8-bit characters, read as
  the code units below 256 (ASCII and Latin-1). Case mapping, white space and word
  characters follow ECMAScript on that range.
\<close>

definition isUpper :: "char \<Rightarrow> bool" where
  "isUpper c = (let n = (of_char c :: nat) in
     (65 \<le> n \<and> n \<le> 90) \<or> (192 \<le> n \<and> n \<le> 222 \<and> n \<noteq> 215))"

definition lowerChar :: "char \<Rightarrow> char" where
  "lowerChar c = (if isUpper c then char_of ((of_char c :: nat) + 32) else c)"

definition toLowerCase :: "string \<Rightarrow> string" where
  "toLowerCase s = map lowerChar s"

definition isDigit :: "char \<Rightarrow> bool" where
  "isDigit c = (let n = (of_char c :: nat) in 48 \<le> n \<and> n \<le> 57)"

definition isWordChar :: "char \<Rightarrow> bool" where
  "isWordChar c = (let n = (of_char c :: nat) in
     (97 \<le> n \<and> n \<le> 122) \<or> (65 \<le> n \<and> n \<le> 90) \<or> (48 \<le> n \<and> n \<le> 57) \<or> n = 95)"

definition isLineTerminator :: "char \<Rightarrow> bool" where
  "isLineTerminator c = (let n = (of_char c :: nat) in n = 10 \<or> n = 13)"

definition isWhiteSpace :: "char \<Rightarrow> bool" where
  "isWhiteSpace c = (let n = (of_char c :: nat) in (9 \<le> n \<and> n \<le> 13) \<or> n = 32 \<or> n = 160)"

definition trim :: "string \<Rightarrow> string" where
  "trim s = rev (dropWhile isWhiteSpace (rev (dropWhile isWhiteSpace s)))"

fun includesStr :: "string \<Rightarrow> string \<Rightarrow> bool" where
  "includesStr [] sub = (sub = [])"
| "includesStr (x # xs) sub = (prefix sub (x # xs) \<or> includesStr xs sub)"

definition startsWith :: "string \<Rightarrow> string \<Rightarrow> bool" where
  "startsWith s p = prefix p s"

fun join :: "string \<Rightarrow> string list \<Rightarrow> string" where
  "join sep [] = []"
| "join sep [x] = x"
| "join sep (x # y # ys) = x @ sep @ join sep (y # ys)"

section \<open>Regular expressions\<close>

text \<open>
  The abstract syntax of the regular expressions the plugin uses, and a backtracking
  matcher. A match state is the character just before the current position (None at the
  start of the input) and the text still to be read. \<open>ends\<close> lists the states in which
  a match of the expression can end, in the order in which a backtracking matcher tries
  them, so the head of the list is the match that the host's engine reports.
\<close>

datatype citem = CDigit | CNotDigit | CSpace | CNotSpace | CWord | CNotWord

datatype rx =
    REps
  | RChr char
  | RDot
  | RCls "citem list"
  | RBol
  | REol
  | RWordB
  | RNotWordB
  | RSeq rx rx
  | RAlt rx rx
  | RStar bool rx
  | RPlus bool rx
  | ROpt bool rx

type_synonym mstate = "char option \<times> string"

fun in_citem :: "citem \<Rightarrow> char \<Rightarrow> bool" where
  "in_citem CDigit c = isDigit c"
| "in_citem CNotDigit c = (\<not> isDigit c)"
| "in_citem CSpace c = isWhiteSpace c"
| "in_citem CNotSpace c = (\<not> isWhiteSpace c)"
| "in_citem CWord c = isWordChar c"
| "in_citem CNotWord c = (\<not> isWordChar c)"

definition eqChar :: "bool \<Rightarrow> char \<Rightarrow> char \<Rightarrow> bool" where
  "eqChar ic c d = (if ic then lowerChar c = lowerChar d else c = d)"

fun step1 :: "(char \<Rightarrow> bool) \<Rightarrow> mstate \<Rightarrow> mstate list" where
  "step1 P (p, []) = []"
| "step1 P (p, x # xs) = (if P x then [(Some x, xs)] else [])"

definition wordBefore :: "mstate \<Rightarrow> bool" where
  "wordBefore st = (case fst st of None \<Rightarrow> False | Some c \<Rightarrow> isWordChar c)"

definition wordAfter :: "mstate \<Rightarrow> bool" where
  "wordAfter st = (case snd st of [] \<Rightarrow> False | c # _ \<Rightarrow> isWordChar c)"

definition atBoundary :: "mstate \<Rightarrow> bool" where
  "atBoundary st = (wordBefore st \<noteq> wordAfter st)"

fun star_iter :: "bool \<Rightarrow> (mstate \<Rightarrow> mstate list) \<Rightarrow> mstate \<Rightarrow> mstate list" where
  "star_iter g f st =
     (let more = concat (map (star_iter g f)
                   (filter (\<lambda>st'. length (snd st') < length (snd st)) (f st)))
      in if g then more @ [st] else st # more)"

declare star_iter.simps [simp del]

primrec ends :: "bool \<Rightarrow> rx \<Rightarrow> mstate \<Rightarrow> mstate list" where
  "ends ic REps st = [st]"
| "ends ic (RChr c) st = step1 (eqChar ic c) st"
| "ends ic RDot st = step1 (\<lambda>x. \<not> isLineTerminator x) st"
| "ends ic (RCls items) st = step1 (\<lambda>x. \<exists>i \<in> set items. in_citem i x) st"
| "ends ic RBol st = (if fst st = None then [st] else [])"
| "ends ic REol st = (if snd st = [] then [st] else [])"
| "ends ic RWordB st = (if atBoundary st then [st] else [])"
| "ends ic RNotWordB st = (if atBoundary st then [] else [st])"
| "ends ic (RSeq a b) st = concat (map (ends ic b) (ends ic a st))"
| "ends ic (RAlt a b) st = ends ic a st @ ends ic b st"
| "ends ic (RStar g r) st = star_iter g (ends ic r) st"
| "ends ic (RPlus g r) st = concat (map (star_iter g (ends ic r)) (ends ic r st))"
| "ends ic (ROpt g r) st =
     (let more = filter (\<lambda>st'. length (snd st') < length (snd st)) (ends ic r st)
      in if g then more @ [st] else st # more)"

text \<open>
  \<open>exec_at\<close> is the search of \<^verbatim>\<open>RegExp.prototype.exec\<close> without the global flag: the
  leftmost start position at which the expression matches, and there the first match in
  backtracking order. The result is the text before the match, the match, and the text
  after it.
\<close>

fun exec_at :: "bool \<Rightarrow> rx \<Rightarrow> char option \<Rightarrow> string \<Rightarrow> (string \<times> string \<times> string) option" where
  "exec_at ic r p [] = (case ends ic r (p, []) of [] \<Rightarrow> None | e # _ \<Rightarrow> Some ([], [], []))"
| "exec_at ic r p (x # xs) =
     (case ends ic r (p, x # xs) of
        e # _ \<Rightarrow> Some ([], take (length (x # xs) - length (snd e)) (x # xs), snd e)
      | [] \<Rightarrow> map_option (\<lambda>(b, m, a). (x # b, m, a)) (exec_at ic r (Some x) xs))"

definition regex_exec :: "bool \<Rightarrow> rx \<Rightarrow> string \<Rightarrow> (string \<times> string \<times> string) option" where
  "regex_exec ic r s = exec_at ic r None s"

definition regex_test :: "bool \<Rightarrow> rx \<Rightarrow> string \<Rightarrow> bool" where
  "regex_test ic r s = (regex_exec ic r s \<noteq> None)"

definition regex_replace :: "bool \<Rightarrow> rx \<Rightarrow> string \<Rightarrow> string \<Rightarrow> string" where
  "regex_replace ic r rep s = (case regex_exec ic r s of None \<Rightarrow> s | Some (b, m, a) \<Rightarrow> b @ rep @ a)"

fun lit :: "string \<Rightarrow> rx" where
  "lit [] = REps"
| "lit (c # cs) = RSeq (RChr c) (lit cs)"


section \<open>Compiling a pattern string\<close>

text \<open>
  \<^verbatim>\<open>new RegExp(source)\<close> is modelled on a fragment of the pattern syntax: literal
  characters, \<^verbatim>\<open>.\<close>, \<^verbatim>\<open>^\<close>, \<^verbatim>\<open>$\<close>, \<^verbatim>\<open>|\<close>, the quantifiers \<^verbatim>\<open>*\<close>, \<^verbatim>\<open>+\<close>, \<^verbatim>\<open>?\<close> and their
  lazy forms, and backslash escapes (word boundaries, the classes d, s, w, the control
  letters f, n, r, t, v, and identity escapes). On that fragment the result is the
  engine's: an expression, or SyntaxError where the engine throws. Groups, bracketed
  classes, braces, back references and numeric escapes are outside the fragment: for
  them the model answers Unmodelled and states nothing about the program.
\<close>

datatype error = SyntaxError | TypeError | NoModelSelected | NetworkError | Unmodelled

datatype qstate = QNone | QAtom | QGreedy | QLazy

record pstate =
  alts_done :: "rx list"
  terms :: "rx list"
  quant :: qstate
  esc :: bool

definition bslash :: char where
  "bslash = CHR 0x5C"

fun seqs :: "rx list \<Rightarrow> rx" where
  "seqs [] = REps"
| "seqs [r] = r"
| "seqs (r # rs) = RSeq r (seqs rs)"

fun alts :: "rx list \<Rightarrow> rx" where
  "alts [] = REps"
| "alts [r] = r"
| "alts (r # rs) = RAlt r (alts rs)"

definition push_atom :: "rx \<Rightarrow> pstate \<Rightarrow> error + pstate" where
  "push_atom r ps = Inr (ps\<lparr>terms := r # terms ps, quant := QAtom, esc := False\<rparr>)"

definition push_assertion :: "rx \<Rightarrow> pstate \<Rightarrow> error + pstate" where
  "push_assertion r ps = Inr (ps\<lparr>terms := r # terms ps, quant := QNone, esc := False\<rparr>)"

definition quantify :: "(rx \<Rightarrow> rx) \<Rightarrow> pstate \<Rightarrow> error + pstate" where
  "quantify f ps =
     (case terms ps of
        t # ts \<Rightarrow> if quant ps = QAtom then Inr (ps\<lparr>terms := f t # ts, quant := QGreedy\<rparr>)
                  else Inl SyntaxError
      | [] \<Rightarrow> Inl SyntaxError)"

fun lazy_of :: "rx \<Rightarrow> rx" where
  "lazy_of (RStar g r) = RStar False r"
| "lazy_of (RPlus g r) = RPlus False r"
| "lazy_of (ROpt g r) = ROpt False r"
| "lazy_of r = r"

definition question :: "pstate \<Rightarrow> error + pstate" where
  "question ps =
     (case terms ps of
        t # ts \<Rightarrow>
          if quant ps = QAtom then Inr (ps\<lparr>terms := ROpt True t # ts, quant := QGreedy\<rparr>)
          else if quant ps = QGreedy then Inr (ps\<lparr>terms := lazy_of t # ts, quant := QLazy\<rparr>)
          else Inl SyntaxError
      | [] \<Rightarrow> Inl SyntaxError)"

definition parse_escape :: "pstate \<Rightarrow> char \<Rightarrow> error + pstate" where
  "parse_escape ps c =
     (if c = CHR ''b'' then push_assertion RWordB ps
      else if c = CHR ''B'' then push_assertion RNotWordB ps
      else if c = CHR ''d'' then push_atom (RCls [CDigit]) ps
      else if c = CHR ''D'' then push_atom (RCls [CNotDigit]) ps
      else if c = CHR ''s'' then push_atom (RCls [CSpace]) ps
      else if c = CHR ''S'' then push_atom (RCls [CNotSpace]) ps
      else if c = CHR ''w'' then push_atom (RCls [CWord]) ps
      else if c = CHR ''W'' then push_atom (RCls [CNotWord]) ps
      else if c = CHR ''f'' then push_atom (RChr (CHR 0x0C)) ps
      else if c = CHR ''n'' then push_atom (RChr (CHR 0x0A)) ps
      else if c = CHR ''r'' then push_atom (RChr (CHR 0x0D)) ps
      else if c = CHR ''t'' then push_atom (RChr (CHR 0x09)) ps
      else if c = CHR ''v'' then push_atom (RChr (CHR 0x0B)) ps
      else if c \<in> set ''cxuk0123456789'' then Inl Unmodelled
      else push_atom (RChr c) ps)"

definition parse_plain :: "pstate \<Rightarrow> char \<Rightarrow> error + pstate" where
  "parse_plain ps c =
     (if c = bslash then Inr (ps\<lparr>esc := True\<rparr>)
      else if c = CHR ''|'' then
        Inr (ps\<lparr>alts_done := seqs (rev (terms ps)) # alts_done ps, terms := [], quant := QNone\<rparr>)
      else if c = CHR ''^'' then push_assertion RBol ps
      else if c = CHR ''$'' then push_assertion REol ps
      else if c = CHR ''.'' then push_atom RDot ps
      else if c = CHR ''*'' then quantify (RStar True) ps
      else if c = CHR ''+'' then quantify (RPlus True) ps
      else if c = CHR ''?'' then question ps
      else if c \<in> set ''()[{'' then Inl Unmodelled
      else push_atom (RChr c) ps)"

definition parse_char :: "pstate \<Rightarrow> char \<Rightarrow> error + pstate" where
  "parse_char ps c = (if esc ps then parse_escape ps c else parse_plain ps c)"

fun parse :: "pstate \<Rightarrow> string \<Rightarrow> error + rx" where
  "parse ps [] =
     (if esc ps then Inl SyntaxError
      else Inr (alts (rev (seqs (rev (terms ps)) # alts_done ps))))"
| "parse ps (c # cs) = (case parse_char ps c of Inl e \<Rightarrow> Inl e | Inr ps' \<Rightarrow> parse ps' cs)"

definition compile :: "string \<Rightarrow> error + rx" where
  "compile src = parse \<lparr>alts_done = [], terms = [], quant = QNone, esc = False\<rparr> src"


section \<open>Settings, documents and the deterministic pass\<close>

record LLMTaggerSettings =
  selectedModel :: "string option"
  defaultTags :: "string list"
  autoAddTags :: bool
  taggedFiles :: "string \<rightharpoonup> int"
  excludePatterns :: "string list"

record tfile =
  path :: string
  basename :: string
  extension :: string
  mtime :: int

text \<open>\<^verbatim>\<open>!this.settings.selectedModel\<close>: null and the empty string are both falsy.\<close>

definition noModel :: "LLMTaggerSettings \<Rightarrow> bool" where
  "noModel st = (case selectedModel st of None \<Rightarrow> True | Some m \<Rightarrow> m = [])"

definition marker :: string where
  "marker = ''---\<newline>LLM-tagged:''"

definition isAlreadyTagged :: "string \<Rightarrow> bool" where
  "isAlreadyTagged content = includesStr content marker"

text \<open>\<^verbatim>\<open>tag.replace(/^#/, '').toLowerCase()\<close>\<close>

definition cleanTag :: "string \<Rightarrow> string" where
  "cleanTag tag = toLowerCase (if startsWith tag ''#'' then drop 1 tag else tag)"

text \<open>\<^verbatim>\<open>new RegExp(`\\b${cleanTag}\\b`, 'i')\<close>\<close>

definition tagRegex :: "string \<Rightarrow> error + rx" where
  "tagRegex tag = compile ([bslash, CHR ''b''] @ cleanTag tag @ [bslash, CHR ''b''])"

definition hashed :: "string \<Rightarrow> string" where
  "hashed tag = (if startsWith tag ''#'' then tag else ''#'' @ tag)"

text \<open>A \<^verbatim>\<open>Set\<close> keeps its elements in insertion order and ignores a second \<^verbatim>\<open>add\<close>.\<close>

definition setAdd :: "string list \<Rightarrow> string \<Rightarrow> string list" where
  "setAdd added x = (if x \<in> set added then added else added @ [x])"

fun collectTags :: "string \<Rightarrow> string list \<Rightarrow> string list \<Rightarrow> error + string list" where
  "collectTags lowerContent [] addedTags = Inr addedTags"
| "collectTags lowerContent (tag # tags) addedTags =
     (case tagRegex tag of
        Inl e \<Rightarrow> Inl e
      | Inr regex \<Rightarrow>
          collectTags lowerContent tags
            (if regex_test True regex lowerContent then setAdd addedTags (hashed tag)
             else addedTags))"

definition anyChar :: rx where
  "anyChar = RCls [CSpace, CNotSpace]"

text \<open>\<^verbatim>\<open>/^---\n[\s\S]*?\n---\n/\<close>\<close>

definition frontMatterPattern :: rx where
  "frontMatterPattern =
     RSeq RBol (RSeq (lit ''---\<newline>'') (RSeq (RStar False anyChar) (lit ''\<newline>---\<newline>'')))"

definition addDeterministicTags :: "string \<Rightarrow> string list \<Rightarrow> error + string" where
  "addDeterministicTags content availableTags =
     (case collectTags (toLowerCase content) availableTags [] of
        Inl e \<Rightarrow> Inl e
      | Inr addedTags \<Rightarrow>
          if addedTags = [] then Inr content
          else (case regex_exec False frontMatterPattern content of
                  Some (b, frontMatter, a) \<Rightarrow>
                    Inr (frontMatter @ join '' '' addedTags @ '' ''
                           @ drop (length frontMatter) content)
                | None \<Rightarrow> Inr (join '' '' addedTags @ '' '' @ content)))"

section \<open>The reply of the language-model service and tag synthesis\<close>

datatype json =
    JNull
  | JBool bool
  | JNum int
  | JStr string
  | JArr "json list"
  | JObj "(string \<times> json) list"

text \<open>
  What the awaited \<^verbatim>\<open>fetch\<close> and \<^verbatim>\<open>response.json()\<close> produce: the request fails, the body is
  not JSON, or the body parses to a value.
\<close>

datatype reply = FetchFailed | NotJson | Body json

text \<open>
  \<^verbatim>\<open>data.response.trim()\<close>: reading a property of null throws; a missing property is
  undefined and calling \<^verbatim>\<open>trim\<close> on it throws; only a string has \<^verbatim>\<open>trim\<close>. A later
  duplicate key overrides an earlier one.
\<close>

definition responseTrimmed :: "json \<Rightarrow> error + string" where
  "responseTrimmed data =
     (case data of
        JObj members \<Rightarrow>
          (case map_of (rev members) ''response'' of
             Some (JStr s) \<Rightarrow> Inr (trim s)
           | _ \<Rightarrow> Inl TypeError)
      | _ \<Rightarrow> Inl TypeError)"

definition header :: "string \<Rightarrow> string" where
  "header timestamp = ''---\<newline>LLM-tagged: '' @ timestamp @ ''\<newline>---\<newline>\<newline>''"

definition divider :: string where
  "divider = ''\<newline>\<newline>---\<newline>\<newline>''"

definition processContentWithOllama ::
    "LLMTaggerSettings \<Rightarrow> string \<Rightarrow> string list \<Rightarrow> reply \<Rightarrow> string \<Rightarrow> error + string" where
  "processContentWithOllama st content availableTags rep timestamp =
     (if noModel st then Inl NoModelSelected
      else if isAlreadyTagged content then Inr content
      else (case addDeterministicTags content availableTags of
              Inl e \<Rightarrow> Inl e
            | Inr processedContent \<Rightarrow>
                (case rep of
                   FetchFailed \<Rightarrow> Inl NetworkError
                 | NotJson \<Rightarrow> Inl SyntaxError
                 | Body data \<Rightarrow>
                     (case responseTrimmed data of
                        Inl e \<Rightarrow> Inl e
                      | Inr taggedSummary \<Rightarrow>
                          if taggedSummary \<noteq> [] then
                            Inr (header timestamp @ taggedSummary @ divider @ processedContent)
                          else Inr processedContent))))"

section \<open>Eligibility\<close>

text \<open>
  \<^verbatim>\<open>pattern.toLowerCase().replace(/\./g, '\\.').replace(/\*/g, '.*')\<close>, then
  \<^verbatim>\<open>new RegExp(`^${regexPattern}$|/${regexPattern}$|/${regexPattern}/`)\<close>.
\<close>

definition escapeDots :: "string \<Rightarrow> string" where
  "escapeDots s = concat (map (\<lambda>c. if c = CHR ''.'' then [bslash, CHR ''.''] else [c]) s)"

definition expandStars :: "string \<Rightarrow> string" where
  "expandStars s = concat (map (\<lambda>c. if c = CHR ''*'' then ''.*'' else [c]) s)"

definition globSource :: "string \<Rightarrow> string" where
  "globSource pattern =
     (let regexPattern = expandStars (escapeDots (toLowerCase pattern))
      in ''^'' @ regexPattern @ ''$|/'' @ regexPattern @ ''$|/'' @ regexPattern @ ''/'')"

text \<open>One turn of the loop over the exclusion patterns: does this pattern exclude the file?\<close>

definition patternExcludes :: "string \<Rightarrow> tfile \<Rightarrow> error + bool" where
  "patternExcludes pattern file =
     (let filePath = toLowerCase (path file) in
      if CHR ''*'' \<in> set pattern then
        (case compile (globSource pattern) of
           Inl e \<Rightarrow> Inl e
         | Inr regex \<Rightarrow> Inr (regex_test False regex filePath))
      else
        (let normalizedPattern = toLowerCase pattern in
         Inr (toLowerCase (basename file) = normalizedPattern
              \<or> includesStr filePath (''/'' @ normalizedPattern @ ''/''))))"

fun excluded :: "string list \<Rightarrow> tfile \<Rightarrow> error + bool" where
  "excluded [] file = Inr False"
| "excluded (pattern # patterns) file =
     (case patternExcludes pattern file of
        Inl e \<Rightarrow> Inl e
      | Inr True \<Rightarrow> Inr True
      | Inr False \<Rightarrow> excluded patterns file)"

text \<open>\<^verbatim>\<open>if (!lastTagged) return true\<close>: a missing entry and the number 0 are both falsy.\<close>

definition shouldProcessFile :: "LLMTaggerSettings \<Rightarrow> tfile \<Rightarrow> error + bool" where
  "shouldProcessFile st file =
     (case excluded (excludePatterns st) file of
        Inl e \<Rightarrow> Inl e
      | Inr True \<Rightarrow> Inr False
      | Inr False \<Rightarrow>
          (case taggedFiles st (path file) of
             None \<Rightarrow> Inr True
           | Some lastTagged \<Rightarrow>
               if lastTagged = 0 then Inr True else Inr (mtime file > lastTagged)))"

section \<open>Untagging\<close>

text \<open>\<^verbatim>\<open>/---\nLLM-tagged:[\s\S]*?---\n\n[\s\S]*?\n\n---\n+/\<close>\<close>

definition taggedSectionPattern :: rx where
  "taggedSectionPattern =
     RSeq (lit ''---\<newline>LLM-tagged:'')
       (RSeq (RStar False anyChar)
         (RSeq (lit ''---\<newline>\<newline>'')
           (RSeq (RStar False anyChar)
             (RSeq (lit ''\<newline>\<newline>---'') (RPlus True (RChr CHR ''\<newline>''))))))"

text \<open>\<^verbatim>\<open>/^(#\w+\s*)+/\<close>\<close>

definition tagPattern :: rx where
  "tagPattern =
     RSeq RBol
       (RPlus True
         (RSeq (RChr CHR ''#'') (RSeq (RPlus True (RCls [CWord])) (RStar True (RCls [CSpace])))))"

text \<open>
  The body shared by \<^verbatim>\<open>untagCurrentDocument\<close> and \<^verbatim>\<open>untagAllDocuments\<close>: the cleaned
  content and the flag \<^verbatim>\<open>wasModified\<close>.
\<close>

definition untagContent :: "string \<Rightarrow> string \<times> bool" where
  "untagContent content =
     (let (cleaned1, modified1) =
            (if isAlreadyTagged content then
               (let c = regex_replace False taggedSectionPattern [] content
                in (c, c \<noteq> content))
             else (content, False))
      in if regex_test False tagPattern cleaned1
         then (trim (regex_replace False tagPattern [] cleaned1), True)
         else (cleaned1, modified1))"


section \<open>The vault and the operations that write to it\<close>

text \<open>
  The state the operations act on: the vault (document content by path), the settings
  with the tagging record, the log of \<^verbatim>\<open>vault.modify\<close> calls, the paths open in an
  editing view, and the notices shown to the user.
\<close>

datatype notice = Tagged string | Untagged string | Failed string

record world =
  vault :: "string \<rightharpoonup> string"
  settings :: LLMTaggerSettings
  writes :: "(string \<times> string) list"
  openFiles :: "string list"
  notices :: "notice list"

text \<open>
  What the surroundings contribute to one tagging call: the reply of the service, the
  clock readings, and whatever other tasks do to the state while the call is awaited.
\<close>

record env =
  reply :: reply
  timestamp :: string
  now :: int
  during :: "world \<Rightarrow> world"

definition notify :: "notice \<Rightarrow> world \<Rightarrow> world" where
  "notify n w = w\<lparr>notices := notices w @ [n]\<rparr>"

definition modify :: "string \<Rightarrow> string \<Rightarrow> world \<Rightarrow> world" where
  "modify p content w = w\<lparr>vault := (vault w)(p \<mapsto> content), writes := writes w @ [(p, content)]\<rparr>"

definition recordTagged :: "string \<Rightarrow> int \<Rightarrow> world \<Rightarrow> world" where
  "recordTagged p t w =
     w\<lparr>settings := (settings w)\<lparr>taggedFiles := (taggedFiles (settings w))(p \<mapsto> t)\<rparr>\<rparr>"

definition forgetTagged :: "string \<Rightarrow> world \<Rightarrow> world" where
  "forgetTagged p w =
     w\<lparr>settings := (settings w)\<lparr>taggedFiles := (taggedFiles (settings w))(p := None)\<rparr>\<rparr>"

text \<open>
  The block the four tagging operations share, from the call of
  \<^verbatim>\<open>processContentWithOllama\<close> to the end of their \<^verbatim>\<open>try\<close>: synthesis, the second read,
  the staleness test, and the write with the record update. A thrown error is caught
  and reported; reading a document that is gone throws. The result is Inl only where
  the model is silent.
\<close>

definition tagAndWrite ::
    "env \<Rightarrow> bool \<Rightarrow> tfile \<Rightarrow> string \<Rightarrow> string list \<Rightarrow> world \<Rightarrow> error + world" where
  "tagAndWrite e announce file initialContent tags w =
     (let result = processContentWithOllama (settings w) initialContent tags (reply e) (timestamp e);
          w1 = during e w
      in case result of
           Inl err \<Rightarrow>
             if err = Unmodelled then Inl Unmodelled
             else Inr (notify (Failed (basename file)) w1)
         | Inr taggedContent \<Rightarrow>
             (case vault w1 (path file) of
                None \<Rightarrow> Inr (notify (Failed (basename file)) w1)
              | Some currentContent \<Rightarrow>
                  if currentContent \<noteq> initialContent then Inr w1
                  else if taggedContent \<noteq> initialContent then
                    Inr ((if announce then notify (Tagged (basename file)) else id)
                           (recordTagged (path file) (now e)
                              (modify (path file) taggedContent w1)))
                  else Inr w1))"

definition isFileCurrentlyOpen :: "world \<Rightarrow> tfile \<Rightarrow> bool" where
  "isFileCurrentlyOpen w file = (path file \<in> set (openFiles w))"

definition autoTaggingOff :: "LLMTaggerSettings \<Rightarrow> bool" where
  "autoTaggingOff st = (\<not> autoAddTags st \<or> noModel st \<or> defaultTags st = [])"

text \<open>
  \<^verbatim>\<open>autoTagFile\<close>. The eligibility test runs outside the \<^verbatim>\<open>try\<close>, so an error thrown by
  it leaves the function (Inl) before anything was changed.
\<close>

definition autoTagFile :: "env \<Rightarrow> tfile \<Rightarrow> world \<Rightarrow> error + world" where
  "autoTagFile e file w =
     (if autoTaggingOff (settings w) then Inr w
      else (case shouldProcessFile (settings w) file of
              Inl err \<Rightarrow> Inl err
            | Inr False \<Rightarrow> Inr w
            | Inr True \<Rightarrow>
                if isFileCurrentlyOpen w file then Inr w
                else (case vault w (path file) of
                        None \<Rightarrow> Inr (notify (Failed (basename file)) w)
                      | Some initialContent \<Rightarrow>
                          if trim initialContent = [] then Inr w
                          else tagAndWrite e False file initialContent
                                 (defaultTags (settings w)) w)))"

definition autoTagFileOnClose :: "env \<Rightarrow> tfile \<Rightarrow> world \<Rightarrow> error + world" where
  "autoTagFileOnClose e file w =
     (if autoTaggingOff (settings w) then Inr w
      else (case shouldProcessFile (settings w) file of
              Inl err \<Rightarrow> Inl err
            | Inr False \<Rightarrow> Inr w
            | Inr True \<Rightarrow>
                (case vault w (path file) of
                   None \<Rightarrow> Inr (notify (Failed (basename file)) w)
                 | Some initialContent \<Rightarrow>
                     if trim initialContent = [] then Inr w
                     else tagAndWrite e False file initialContent
                            (defaultTags (settings w)) w)))"

text \<open>
  \<^verbatim>\<open>tagCurrentDocument\<close>, from the point where the active file and the tags the user
  entered are known.
\<close>

definition tagCurrentDocument :: "env \<Rightarrow> tfile \<Rightarrow> string list \<Rightarrow> world \<Rightarrow> error + world" where
  "tagCurrentDocument e activeFile tags w =
     (case vault w (path activeFile) of
        None \<Rightarrow> Inr (notify (Failed (basename activeFile)) w)
      | Some initialContent \<Rightarrow>
          if isAlreadyTagged initialContent then Inr w
          else tagAndWrite e True activeFile initialContent tags w)"

text \<open>
  The loop of \<^verbatim>\<open>addTagsToDocuments\<close> over the files, each with its own surroundings. An
  error thrown by the eligibility test is not caught inside the loop and ends it.
\<close>

fun addTagsToDocuments :: "(tfile \<times> env) list \<Rightarrow> string list \<Rightarrow> world \<Rightarrow> error + world" where
  "addTagsToDocuments [] tags w = Inr w"
| "addTagsToDocuments ((file, e) # rest) tags w =
     (case shouldProcessFile (settings w) file of
        Inl err \<Rightarrow> Inl err
      | Inr False \<Rightarrow> addTagsToDocuments rest tags w
      | Inr True \<Rightarrow>
          (case vault w (path file) of
             None \<Rightarrow> addTagsToDocuments rest tags (notify (Failed (basename file)) w)
           | Some initialContent \<Rightarrow>
               if isAlreadyTagged initialContent then addTagsToDocuments rest tags w
               else (case tagAndWrite e True file initialContent tags w of
                       Inl err \<Rightarrow> Inl err
                     | Inr w' \<Rightarrow> addTagsToDocuments rest tags w')))"

text \<open>\<^verbatim>\<open>untagCurrentDocument\<close> and the loop of \<^verbatim>\<open>untagAllDocuments\<close>.\<close>

definition untagCurrentDocument :: "tfile \<Rightarrow> world \<Rightarrow> world" where
  "untagCurrentDocument activeFile w =
     (case vault w (path activeFile) of
        None \<Rightarrow> notify (Failed (basename activeFile)) w
      | Some content \<Rightarrow>
          (case untagContent content of
             (cleanedContent, wasModified) \<Rightarrow>
               if wasModified then
                 notify (Untagged (basename activeFile))
                   (forgetTagged (path activeFile) (modify (path activeFile) cleanedContent w))
               else w))"

fun untagAllDocuments :: "tfile list \<Rightarrow> world \<Rightarrow> world" where
  "untagAllDocuments [] w = w"
| "untagAllDocuments (file # files) w =
     untagAllDocuments files
       (case vault w (path file) of
          None \<Rightarrow> notify (Failed (basename file)) w
        | Some content \<Rightarrow>
            (case untagContent content of
               (cleanedContent, wasModified) \<Rightarrow>
                 if wasModified then
                   forgetTagged (path file) (modify (path file) cleanedContent w)
                 else w))"


section \<open>Vocabulary for the properties\<close>

text \<open>The character before the position reached after reading \<open>b\<close>.\<close>

definition prevOf :: "char option \<Rightarrow> string \<Rightarrow> char option" where
  "prevOf p b = (if b = [] then p else Some (last b))"

text \<open>
  The text begins with a hashtag token: the character \<^verbatim>\<open>#\<close> followed by at least one word
  character. A leading run of hashtag tokens begins with one.
\<close>

definition startsWithHashtag :: "string \<Rightarrow> bool" where
  "startsWithHashtag s = (case s of c # w # _ \<Rightarrow> c = CHR ''#'' \<and> isWordChar w | _ \<Rightarrow> False)"

text \<open>
  \<open>untouched w1 w'\<close>: between \<open>w1\<close> and \<open>w'\<close> no document was written and the settings,
  with the tagging record, are the same (a notice may have been shown).
  \<open>written file c t w1 w'\<close>: \<open>w'\<close> is \<open>w1\<close> after one write of \<open>c\<close> to the file and the
  refresh of its record entry to \<open>t\<close>.
\<close>

definition untouched :: "world \<Rightarrow> world \<Rightarrow> bool" where
  "untouched w1 w' = (vault w' = vault w1 \<and> writes w' = writes w1 \<and> settings w' = settings w1)"

definition written :: "tfile \<Rightarrow> string \<Rightarrow> int \<Rightarrow> world \<Rightarrow> world \<Rightarrow> bool" where
  "written file c t w1 w' =
     (vault w' = (vault w1)(path file \<mapsto> c) \<and> writes w' = writes w1 @ [(path file, c)]
      \<and> taggedFiles (settings w') = (taggedFiles (settings w1))(path file \<mapsto> t))"

text \<open>A small vault used to run the operations on concrete input.\<close>

definition ex_settings :: LLMTaggerSettings where
  "ex_settings = \<lparr>selectedModel = Some ''llama3'', defaultTags = [''ml''], autoAddTags = True,
     taggedFiles = Map.empty, excludePatterns = []\<rparr>"

definition ex_file :: tfile where
  "ex_file = \<lparr>path = ''notes/a.md'', basename = ''a'', extension = ''md'', mtime = 5\<rparr>"

definition ex_world :: "string \<Rightarrow> world" where
  "ex_world content = \<lparr>vault = [''notes/a.md'' \<mapsto> content], settings = ex_settings, writes = [],
     openFiles = [], notices = []\<rparr>"

definition ex_edit :: "world \<Rightarrow> world" where
  "ex_edit w = w\<lparr>vault := (vault w)(''notes/a.md'' \<mapsto> ''I study ml today and tomorrow'')\<rparr>"

definition ex_env :: "string \<Rightarrow> (world \<Rightarrow> world) \<Rightarrow> env" where
  "ex_env summary d = \<lparr>reply = Body (JObj [(''response'', JStr summary)]),
     timestamp = ''2024-05-01T10:00:00.000Z'', now = 1714557600000, during = d\<rparr>"

text \<open>
  \<open>guardedOutcome file A t w1 w'\<close>: from \<open>w1\<close> the operation either changed nothing, or
  replaced the content \<open>A\<close> of the file by a different content and refreshed its record
  entry to \<open>t\<close>.
\<close>

definition guardedOutcome :: "tfile \<Rightarrow> string \<Rightarrow> int \<Rightarrow> world \<Rightarrow> world \<Rightarrow> bool" where
  "guardedOutcome file A t w1 w' =
     (untouched w1 w'
      \<or> (\<exists>c. c \<noteq> A \<and> vault w1 (path file) = Some A \<and> written file c t w1 w'))"

text \<open>
  The string held by the \<^verbatim>\<open>response\<close> member of the body, if the body is an object that
  has such a member and the member is a string. The reply carries a summary that is not
  blank when that string has something left after trimming.
\<close>

definition stringResponse :: "json \<Rightarrow> string option" where
  "stringResponse data =
     (case data of
        JObj members \<Rightarrow>
          (case map_of (rev members) ''response'' of Some (JStr s) \<Rightarrow> Some s | _ \<Rightarrow> None)
      | _ \<Rightarrow> None)"

definition nonBlankSummary :: "reply \<Rightarrow> bool" where
  "nonBlankSummary rep =
     (case rep of
        Body data \<Rightarrow> (case stringResponse data of Some s \<Rightarrow> trim s \<noteq> [] | None \<Rightarrow> False)
      | _ \<Rightarrow> False)"

definition ex_blank :: reply where
  "ex_blank = Body (JObj [(''response'', JStr '' '')])"

definition ex_error_body :: reply where
  "ex_error_body = Body (JObj [(''error'', JStr ''model not found'')])"

text \<open>
  The reply carries a string summary that is blank after trimming; the reply carries no
  string summary at all (the request failed, the body is not JSON, or the body has no
  \<^verbatim>\<open>response\<close> member that is a string).
\<close>

definition blankSummary :: "reply \<Rightarrow> bool" where
  "blankSummary rep =
     (case rep of
        Body data \<Rightarrow> (case stringResponse data of Some s \<Rightarrow> trim s = [] | None \<Rightarrow> False)
      | _ \<Rightarrow> False)"

definition noSummary :: "reply \<Rightarrow> bool" where
  "noSummary rep =
     (case rep of
        Body data \<Rightarrow> (case stringResponse data of Some s \<Rightarrow> False | None \<Rightarrow> True)
      | _ \<Rightarrow> True)"






text \<open>
  Following the spec's words, "occurs as a whole word, word-boundary delimited": the
  word is read literally at some position of the text, with a word boundary just before
  it and just after it.
\<close>

definition wholeWordAt :: "char option \<Rightarrow> string \<Rightarrow> string \<Rightarrow> bool" where
  "wholeWordAt p word t =
     (prefix word t \<and> atBoundary (p, t) \<and> atBoundary (prevOf p word, drop (length word) t))"

fun occursFrom :: "char option \<Rightarrow> string \<Rightarrow> string \<Rightarrow> bool" where
  "occursFrom p word [] = wholeWordAt p word []"
| "occursFrom p word (x # xs) = (wholeWordAt p word (x # xs) \<or> occursFrom (Some x) word xs)"

definition occursAsWholeWord :: "string \<Rightarrow> string \<Rightarrow> bool" where
  "occursAsWholeWord word text = occursFrom None word text"

text \<open>The test of the deterministic pass for one tag, false where the tag does not compile.\<close>

definition tagMatches :: "string \<Rightarrow> string \<Rightarrow> bool" where
  "tagMatches content tag =
     (case tagRegex tag of
        Inr regex \<Rightarrow> regex_test True regex (toLowerCase content)
      | Inl e \<Rightarrow> False)"

text \<open>The index of the first occurrence of \<open>needle\<close> in \<open>hay\<close>.\<close>

fun firstIndex :: "string \<Rightarrow> string \<Rightarrow> nat option" where
  "firstIndex needle [] = (if needle = [] then Some 0 else None)"
| "firstIndex needle (x # xs) =
     (if prefix needle (x # xs) then Some 0 else map_option Suc (firstIndex needle xs))"

text \<open>
  The block that the frontmatter pattern of the deterministic pass finds, stated on the
  text itself: the content starts with the line \<^verbatim>\<open>---\<close>, and the block runs up to and
  including the first later occurrence of a line break, \<^verbatim>\<open>---\<close> and a line break. The
  result is empty when the pattern finds nothing; a closing line directly under the
  opening one is not found, since its line break belongs to the opening line.
\<close>

definition frontMatterOf :: "string \<Rightarrow> string" where
  "frontMatterOf content =
     (if prefix ''---\<newline>'' content then
        (case firstIndex ''\<newline>---\<newline>'' (drop 4 content) of
           Some k \<Rightarrow> take (4 + k + 5) content
         | None \<Rightarrow> [])
      else [])"

text \<open>
  Following the spec's words, "content starting with \<^verbatim>\<open>---\<close> up to the next \<^verbatim>\<open>---\<close> line":
  the content begins with the line \<^verbatim>\<open>---\<close>, and the block runs up to and including the
  first later line that is \<^verbatim>\<open>---\<close>, with the line break that ends that line if there
  is one. \<open>isCloseLine t\<close>: the text \<open>t\<close> begins with a line break followed by such a line.
\<close>

definition isCloseLine :: "string \<Rightarrow> bool" where
  "isCloseLine t = (t = ''\<newline>---'' \<or> prefix ''\<newline>---\<newline>'' t)"

fun closeIndex :: "string \<Rightarrow> nat option" where
  "closeIndex [] = None"
| "closeIndex (x # xs) =
     (if isCloseLine (x # xs) then Some 0 else map_option Suc (closeIndex xs))"

definition leadingFrontMatter :: "string \<Rightarrow> string option" where
  "leadingFrontMatter content =
     (if prefix ''---\<newline>'' content then
        (case closeIndex (drop 3 content) of
           Some i \<Rightarrow> Some (take (i + 8) content)
         | None \<Rightarrow> None)
      else None)"

text \<open>Exactly one leading \<^verbatim>\<open>#\<close>.\<close>

definition oneLeadingHash :: "string \<Rightarrow> bool" where
  "oneLeadingHash s = (case s of [] \<Rightarrow> False | c # rest \<Rightarrow> c = CHR ''#'' \<and> \<not> prefix ''#'' rest)"

text \<open>
  The first state, in backtracking order, in which \<open>r\<close> matches at or after the current
  position, trying the positions from left to right.
\<close>

fun lazyScan :: "bool \<Rightarrow> rx \<Rightarrow> char option \<Rightarrow> string \<Rightarrow> mstate option" where
  "lazyScan ic r p [] = (case ends ic r (p, []) of [] \<Rightarrow> None | e # _ \<Rightarrow> Some e)"
| "lazyScan ic r p (x # xs) =
     (case ends ic r (p, x # xs) of [] \<Rightarrow> lazyScan ic r (Some x) xs | e # _ \<Rightarrow> Some e)"

text \<open>
  The text left after one hashtag token at the start of \<open>s\<close>: the character \<^verbatim>\<open>#\<close>, the
  longest run of word characters (at least one), and the white space that follows.
\<close>

definition tokenEnd :: "string \<Rightarrow> string option" where
  "tokenEnd s =
     (case s of
        c # w # rest \<Rightarrow>
          if c = CHR ''#'' \<and> isWordChar w
          then Some (dropWhile isWhiteSpace (dropWhile isWordChar rest))
          else None
      | _ \<Rightarrow> None)"

definition isNewline :: "char \<Rightarrow> bool" where
  "isNewline c = (c = CHR ''\<newline>'')"

text \<open>The part of the tagged-section pattern after the header: summary, divider, line breaks.\<close>

definition dividerPattern :: rx where
  "dividerPattern = RSeq (lit ''\<newline>\<newline>---'') (RPlus True (RChr CHR ''\<newline>''))"

definition ex_frontmatter_note :: string where
  "ex_frontmatter_note = ''---\<newline>title: x\<newline>---\<newline>I study ml''"

text \<open>One hashtag token of the tag pattern: \<^verbatim>\<open>#\w+\s*\<close>.\<close>

definition hashtagToken :: rx where
  "hashtagToken =
     RSeq (RChr CHR ''#'') (RSeq (RPlus True (RCls [CWord])) (RStar True (RCls [CSpace])))"

text \<open>
  \<open>keeps body s\<close>: the text \<open>s\<close> ends with \<open>body\<close>, and what stands before it is empty or
  ends with a white-space character.
\<close>

definition keeps :: "string \<Rightarrow> string \<Rightarrow> bool" where
  "keeps body s = (\<exists>Y. s = Y @ body \<and> (Y = [] \<or> isWhiteSpace (last Y)))"

definition ex_summary :: reply where
  "ex_summary = Body (JObj [(''response'', JStr ''A note. #ai'')])"

definition ex_empty_frontmatter :: string where
  "ex_empty_frontmatter = ''---\<newline>---\<newline>I study ml''"

section \<open>Facts about characters\<close>

lemma of_char_lowerChar:
  "(of_char (lowerChar c) :: nat) = (if isUpper c then of_char c + 32 else of_char c)"
proof (cases "isUpper c")
  case True
  then have "(of_char c :: nat) + 32 < 256" by (auto simp: isUpper_def Let_def)
  then have "(of_char (char_of ((of_char c :: nat) + 32)) :: nat) = of_char c + 32"
    by simp
  with True show ?thesis by (simp add: lowerChar_def)
next
  case False
  then show ?thesis by (simp add: lowerChar_def)
qed

lemma not_isUpper_lowerChar: "\<not> isUpper (lowerChar c)"
  by (cases "isUpper c") (auto simp: isUpper_def Let_def of_char_lowerChar)

lemma lowerChar_idem [simp]: "lowerChar (lowerChar c) = lowerChar c"
  using not_isUpper_lowerChar [of c] by (simp add: lowerChar_def [of "lowerChar c"])

lemma toLowerCase_idem [simp]: "toLowerCase (toLowerCase s) = toLowerCase s"
  by (simp add: toLowerCase_def)

lemma lowerChar_star: "lowerChar c = CHR ''*'' \<longleftrightarrow> c = CHR ''*''"
proof
  assume "lowerChar c = CHR ''*''"
  then have "(of_char (lowerChar c) :: nat) = 42" by simp
  then have "\<not> isUpper c" by (auto simp: of_char_lowerChar isUpper_def Let_def split: if_splits)
  with \<open>lowerChar c = CHR ''*''\<close> show "c = CHR ''*''" by (simp add: lowerChar_def)
next
  assume "c = CHR ''*''" then show "lowerChar c = CHR ''*''"
    by (simp add: lowerChar_def isUpper_def)
qed

lemma star_in_toLowerCase: "CHR ''*'' \<in> set (toLowerCase s) \<longleftrightarrow> CHR ''*'' \<in> set s"
proof -
  have "CHR ''*'' \<in> lowerChar ` set s \<longleftrightarrow> CHR ''*'' \<in> set s"
    using lowerChar_star by (metis (no_types, lifting) image_iff)
  then show ?thesis by (simp add: toLowerCase_def)
qed

lemma isWordChar_lowerChar [simp]: "isWordChar (lowerChar c) = isWordChar c"
  by (cases "isUpper c") (auto simp: isWordChar_def isUpper_def Let_def of_char_lowerChar)

lemma isLineTerminator_lowerChar [simp]: "isLineTerminator (lowerChar c) = isLineTerminator c"
  by (cases "isUpper c") (auto simp: isLineTerminator_def isUpper_def Let_def of_char_lowerChar)

section \<open>Facts about the matcher\<close>

lemma prevOf_Nil [simp]: "prevOf p [] = p"
  by (simp add: prevOf_def)

lemma prevOf_Cons [simp]: "prevOf p (x # b) = prevOf (Some x) b"
  by (simp add: prevOf_def)

lemma star_iter_nonempty: "star_iter g f st \<noteq> []"
  by (subst star_iter.simps) (simp add: Let_def)

lemma step1_suffix: "st' \<in> set (step1 P st) \<Longrightarrow> suffix (snd st') (snd st)"
proof -
  assume a: "st' \<in> set (step1 P st)"
  obtain p s where st: "st = (p, s)" by (cases st)
  show ?thesis using a unfolding st by (cases s) (auto simp: suffix_Cons split: if_splits)
qed

lemma star_iter_cases:
  "st' \<in> set (star_iter g f st) \<longleftrightarrow>
     st' = st \<or> (\<exists>m \<in> set (f st). length (snd m) < length (snd st) \<and> st' \<in> set (star_iter g f m))"
  by (subst star_iter.simps) (auto simp: Let_def)

lemma star_iter_suffix:
  "(\<And>st st'. st' \<in> set (f st) \<Longrightarrow> suffix (snd st') (snd st)) \<Longrightarrow>
   st' \<in> set (star_iter g f st) \<Longrightarrow> suffix (snd st') (snd st)"
proof (induction g f st arbitrary: st' rule: star_iter.induct)
  case (1 g f st)
  from "1.prems"(2) have "st' = st \<or> (\<exists>m \<in> set (f st). length (snd m) < length (snd st)
        \<and> st' \<in> set (star_iter g f m))"
    by (simp add: star_iter_cases [of st' g f st])
  then show ?case
  proof
    assume "st' = st" then show ?thesis by simp
  next
    assume "\<exists>m \<in> set (f st). length (snd m) < length (snd st) \<and> st' \<in> set (star_iter g f m)"
    then obtain m where m: "m \<in> set (f st)" "length (snd m) < length (snd st)"
        "st' \<in> set (star_iter g f m)" by blast
    from "1.IH" [of m st'] m "1.prems"(1) have "suffix (snd st') (snd m)" by simp
    moreover from "1.prems"(1) m(1) have "suffix (snd m) (snd st)" by blast
    ultimately show ?thesis by (rule suffix_order.trans)
  qed
qed

lemma ends_suffix: "st' \<in> set (ends ic r st) \<Longrightarrow> suffix (snd st') (snd st)"
proof (induction r arbitrary: st st')
  case (RSeq a b)
  from RSeq.prems obtain m where "m \<in> set (ends ic a st)" "st' \<in> set (ends ic b m)" by auto
  with RSeq.IH show ?case by (blast intro: suffix_order.trans)
next
  case (RStar g r)
  then show ?case using star_iter_suffix [of "ends ic r"] by auto
next
  case (RPlus g r)
  from RPlus.prems obtain m where m: "m \<in> set (ends ic r st)" "st' \<in> set (star_iter g (ends ic r) m)"
    by auto
  from star_iter_suffix [of "ends ic r", OF _ m(2)] RPlus.IH have "suffix (snd st') (snd m)" by blast
  moreover from RPlus.IH m(1) have "suffix (snd m) (snd st)" by blast
  ultimately show ?case by (rule suffix_order.trans)
next
  case (ROpt g r)
  from ROpt.prems have "st' = st \<or> st' \<in> set (ends ic r st)"
    by (auto simp: Let_def split: if_splits)
  with ROpt.IH [of st' st] show ?case by blast
qed (auto dest: step1_suffix split: if_splits)

lemma exec_at_None_iff:
  "exec_at ic r p s = None \<longleftrightarrow> (\<forall>b a. s = b @ a \<longrightarrow> ends ic r (prevOf p b, a) = [])"
proof (induction s arbitrary: p)
  case Nil
  then show ?case by (auto split: list.splits)
next
  case (Cons x xs)
  show ?case
  proof (cases "ends ic r (p, x # xs)")
    case Nil
    have "(\<forall>b a. x # xs = b @ a \<longrightarrow> ends ic r (prevOf p b, a) = [])
          \<longleftrightarrow> (\<forall>b a. xs = b @ a \<longrightarrow> ends ic r (prevOf (Some x) b, a) = [])"
      (is "?L \<longleftrightarrow> ?R")
    proof
      assume L: ?L
      show ?R
      proof (intro allI impI)
        fix b a assume "xs = b @ a"
        then have "x # xs = (x # b) @ a" by simp
        with L have "ends ic r (prevOf p (x # b), a) = []" by blast
        then show "ends ic r (prevOf (Some x) b, a) = []" by simp
      qed
    next
      assume R: ?R
      show ?L
      proof (intro allI impI)
        fix b a assume ba: "x # xs = b @ a"
        show "ends ic r (prevOf p b, a) = []"
        proof (cases b)
          case Nil
          with ba \<open>ends ic r (p, x # xs) = []\<close> show ?thesis by simp
        next
          case (Cons y ys)
          with ba have "xs = ys @ a" "y = x" by simp_all
          with R have "ends ic r (prevOf (Some x) ys, a) = []" by blast
          with Cons \<open>y = x\<close> show ?thesis by simp
        qed
      qed
    qed
    with Nil Cons.IH [of "Some x"] show ?thesis by simp
  next
    case (Cons e es)
    then have "ends ic r (prevOf p [], x # xs) \<noteq> []" by simp
    then have "\<not> (\<forall>b a. x # xs = b @ a \<longrightarrow> ends ic r (prevOf p b, a) = [])"
      by (metis append_Nil)
    with Cons show ?thesis by simp
  qed
qed

lemma exec_at_Some:
  assumes "exec_at ic r p s = Some (b, m, a)"
  shows "s = b @ m @ a
       \<and> (\<exists>e es. ends ic r (prevOf p b, m @ a) = e # es \<and> snd e = a)
       \<and> (\<forall>b' a'. s = b' @ a' \<and> length b' < length b \<longrightarrow> ends ic r (prevOf p b', a') = [])"
  using assms
proof (induction s arbitrary: p b)
  case Nil
  then obtain e es where e: "ends ic r (p, []) = e # es" and bma: "b = []" "m = []" "a = []"
    by (auto split: list.splits)
  from e have "e \<in> set (ends ic r (p, []))" by simp
  then have "suffix (snd e) []" using ends_suffix by fastforce
  then have "snd e = []" by simp
  with e bma show ?case by simp
next
  case (Cons x xs)
  show ?case
  proof (cases "ends ic r (p, x # xs)")
    case Nil
    with Cons.prems obtain b0 where b0: "exec_at ic r (Some x) xs = Some (b0, m, a)" "b = x # b0"
      by (auto split: prod.splits)
    from Cons.IH [OF b0(1)] have IH: "xs = b0 @ m @ a"
      "\<exists>e es. ends ic r (prevOf (Some x) b0, m @ a) = e # es \<and> snd e = a"
      "\<forall>b' a'. xs = b' @ a' \<and> length b' < length b0 \<longrightarrow> ends ic r (prevOf (Some x) b', a') = []"
      by blast+
    have "ends ic r (prevOf p b', a') = []" if "x # xs = b' @ a'" "length b' < length b" for b' a'
    proof (cases b')
      case Nil
      with that \<open>ends ic r (p, x # xs) = []\<close> show ?thesis by simp
    next
      case (Cons y ys)
      with that b0(2) have "xs = ys @ a'" "y = x" "length ys < length b0" by simp_all
      with IH(3) have "ends ic r (prevOf (Some x) ys, a') = []" by blast
      with Cons \<open>y = x\<close> show ?thesis by simp
    qed
    with IH(1,2) b0(2) show ?thesis by auto
  next
    case (Cons e es)
    with Cons.prems have b: "b = []" and a: "a = snd e"
      and m: "m = take (length (x # xs) - length (snd e)) (x # xs)" by auto
    from Cons have "e \<in> set (ends ic r (p, x # xs))" by simp
    then have "suffix (snd e) (x # xs)" using ends_suffix by fastforce
    then obtain pre where pre: "x # xs = pre @ snd e" by (auto simp: suffix_def)
    then have "length (x # xs) - length (snd e) = length pre"
      by (metis add_diff_cancel_right' length_append)
    with m pre have "m = pre" by (metis append_eq_conv_conj)
    with pre a b Cons show ?thesis by auto
  qed
qed

lemma includesStr_iff_sublist: "includesStr s sub \<longleftrightarrow> sublist sub s"
  by (induction s) (auto simp: sublist_Cons_right)

lemma regex_test_iff:
  "regex_test ic r s \<longleftrightarrow> (\<exists>b a. s = b @ a \<and> ends ic r (prevOf None b, a) \<noteq> [])"
  by (auto simp: regex_test_def regex_exec_def exec_at_None_iff)

lemma ends_RSeq_nonempty:
  "ends ic (RSeq a b) st \<noteq> [] \<longleftrightarrow> (\<exists>m \<in> set (ends ic a st). ends ic b m \<noteq> [])"
  by auto

lemma ends_RPlus_nonempty: "ends ic (RPlus g r) st \<noteq> [] \<longleftrightarrow> ends ic r st \<noteq> []"
  by (cases "ends ic r st") (auto simp: star_iter_nonempty)

lemma ends_RStar_nonempty: "ends ic (RStar g r) st \<noteq> []"
  by (simp add: star_iter_nonempty)

lemma prevOf_None_iff: "prevOf None b = None \<longleftrightarrow> b = []"
  by (simp add: prevOf_def)

lemma anchored_test:
  "regex_test ic (RSeq RBol r) s \<longleftrightarrow> ends ic r (None, s) \<noteq> []"
proof -
  have "ends ic (RSeq RBol r) (p, a) = (if p = None then ends ic r (p, a) else [])" for p a
    by auto
  then have "regex_test ic (RSeq RBol r) s \<longleftrightarrow>
      (\<exists>b a. s = b @ a \<and> prevOf None b = None \<and> ends ic r (None, a) \<noteq> [])"
    unfolding regex_test_iff by (metis (full_types))
  then show ?thesis by (auto simp: prevOf_None_iff)
qed

lemma ends_RSeq_RStar_nonempty:
  "ends ic (RSeq a (RStar g r)) st \<noteq> [] \<longleftrightarrow> ends ic a st \<noteq> []"
  unfolding ends_RSeq_nonempty using ends_RStar_nonempty [of ic g r]
  by (metis ex_in_conv set_empty)

lemma ends_RChr_RSeq:
  "ends False (RSeq (RChr c) r) (p, s) =
     (case s of [] \<Rightarrow> [] | x # xs \<Rightarrow> if x = c then ends False r (Some x, xs) else [])"
  by (cases s) (auto simp: eqChar_def)

lemma tagPattern_test: "regex_test False tagPattern s \<longleftrightarrow> startsWithHashtag s"
proof -
  let ?w = "RSeq (RPlus True (RCls [CWord])) (RStar True (RCls [CSpace]))"
  have w: "ends False ?w (p, t) \<noteq> [] \<longleftrightarrow> (case t of [] \<Rightarrow> False | c # _ \<Rightarrow> isWordChar c)" for p t
    unfolding ends_RSeq_RStar_nonempty ends_RPlus_nonempty by (cases t) simp_all
  have "ends False (RSeq (RChr CHR ''#'') ?w) (None, s) \<noteq> [] \<longleftrightarrow> startsWithHashtag s"
    unfolding ends_RChr_RSeq using w
    by (cases s) (auto simp: startsWithHashtag_def split: list.splits)
  then show ?thesis
    unfolding tagPattern_def anchored_test ends_RPlus_nonempty .
qed












lemma anyChar_step: "ends ic anyChar = step1 (\<lambda>x. True)"
  by (rule ext) (auto simp: anyChar_def intro!: arg_cong2 [where f = step1])

lemma lazy_any_Nil:
  "ends ic (RSeq (RStar False anyChar) r) (p, []) = ends ic r (p, [])"
  by (simp add: anyChar_step star_iter.simps [of False _ "(p, [])"])

lemma lazy_any_Cons:
  "ends ic (RSeq (RStar False anyChar) r) (p, x # xs) =
     ends ic r (p, x # xs) @ ends ic (RSeq (RStar False anyChar) r) (Some x, xs)"
  by (simp add: anyChar_step star_iter.simps [of False _ "(p, x # xs)"])

lemma lazy_any_scan:
  "take 1 (ends ic (RSeq (RStar False anyChar) r) (p, t)) =
     (case lazyScan ic r p t of None \<Rightarrow> [] | Some e \<Rightarrow> [e])"
proof (induction t arbitrary: p)
  case Nil
  show ?case unfolding lazy_any_Nil by (simp split: list.splits)
next
  case (Cons x xs)
  show ?case unfolding lazy_any_Cons using Cons.IH [of "Some x"]
    by (cases "ends ic r (p, x # xs)") simp_all
qed

lemma ends_lit:
  "ends False (lit s) (p, t) = (if prefix s t then [(prevOf p s, drop (length s) t)] else [])"
proof (induction s arbitrary: p t)
  case Nil
  then show ?case by simp
next
  case (Cons c cs)
  show ?case
  proof (cases t)
    case Nil
    then show ?thesis by simp
  next
    case (Cons x xs)
    with Cons.IH [of "Some x" xs] show ?thesis by (auto simp: eqChar_def)
  qed
qed

lemma ends_lit_RSeq:
  "ends False (RSeq (lit s) r) (p, t) =
     (if prefix s t then ends False r (prevOf p s, drop (length s) t) else [])"
  using ends_lit [of s p t] by simp

lemma firstIndex_Some:
  "firstIndex n t = Some k \<Longrightarrow>
     prefix n (drop k t) \<and> k + length n \<le> length t \<and> (\<forall>j < k. \<not> prefix n (drop j t))"
proof (induction t arbitrary: k)
  case Nil
  then show ?case by (simp split: if_splits)
next
  case (Cons x xs)
  show ?case
  proof (cases "prefix n (x # xs)")
    case True
    with Cons.prems have "k = 0" by simp
    with True prefix_length_le [of n "x # xs"] show ?thesis by simp
  next
    case False
    with Cons.prems obtain k' where k': "firstIndex n xs = Some k'" "k = Suc k'" by auto
    from Cons.IH [OF k'(1)] have IH: "prefix n (drop k' xs)" "k' + length n \<le> length xs"
      "\<forall>j < k'. \<not> prefix n (drop j xs)" by simp_all
    have "\<not> prefix n (drop j (x # xs))" if "j < k" for j
    proof (cases j)
      case 0
      with False show ?thesis by simp
    next
      case (Suc j')
      with that k'(2) IH(3) show ?thesis by simp
    qed
    with IH k'(2) show ?thesis by simp
  qed
qed

lemma firstIndex_None: "firstIndex n t = None \<Longrightarrow> \<not> sublist n t"
proof (induction t)
  case Nil
  then show ?case by (simp split: if_splits)
next
  case (Cons x xs)
  then show ?case by (auto simp: sublist_Cons_right split: if_splits)
qed

lemma lazyScan_lit:
  "lazyScan False (lit n) p t =
     (case firstIndex n t of
        None \<Rightarrow> None
      | Some k \<Rightarrow> Some (prevOf p (take (k + length n) t), drop (k + length n) t))"
proof (induction t arbitrary: p)
  case Nil
  show ?case by (simp add: ends_lit)
next
  case (Cons x xs)
  show ?case
  proof (cases "prefix n (x # xs)")
    case True
    then obtain r where r: "x # xs = n @ r" by (auto simp: prefix_def)
    then have "take (length n) (x # xs) = n" by (metis append_eq_conv_conj)
    with True show ?thesis by (simp add: ends_lit)
  next
    case False
    then show ?thesis using Cons.IH [of "Some x"] by (simp add: ends_lit split: option.splits)
  qed
qed

lemma exec_at_anchored_later: "exec_at ic (RSeq RBol r) (Some c) s = None"
  by (induction s arbitrary: c) simp_all

lemma regex_exec_anchored:
  "regex_exec ic (RSeq RBol r) s =
     (case ends ic r (None, s) of
        [] \<Rightarrow> None
      | e # _ \<Rightarrow> Some ([], take (length s - length (snd e)) s, snd e))"
proof (cases s)
  case Nil
  have "snd e = []" if "e \<in> set (ends ic r (None, []))" for e
    using ends_suffix [OF that] by simp
  then show ?thesis using Nil
    by (cases "ends ic r (None, [])") (simp_all add: regex_exec_def)
next
  case (Cons x xs)
  then show ?thesis
    by (cases "ends ic r (None, x # xs)") (simp_all add: regex_exec_def exec_at_anchored_later)
qed

lemma take1_head: "take 1 xs = (case ys of None \<Rightarrow> [] | Some e \<Rightarrow> [e]) \<Longrightarrow>
   (case xs of [] \<Rightarrow> None | e # _ \<Rightarrow> Some e) = ys"
  by (cases xs; cases ys) simp_all

lemma frontMatter_exec:
  "regex_exec False frontMatterPattern content =
     (if frontMatterOf content = [] then None
      else Some ([], frontMatterOf content, drop (length (frontMatterOf content)) content))"
proof (cases "prefix ''---\<newline>'' content")
  case False
  then show ?thesis
    unfolding frontMatterPattern_def regex_exec_anchored ends_lit_RSeq
    by (simp add: frontMatterOf_def)
next
  case True
  define t where "t = drop 4 content"
  define N where "N = ''\<newline>---\<newline>''"
  define q where "q = prevOf None ''---\<newline>''"
  define E where "E = ends False (RSeq (RStar False anyChar) (lit N)) (q, t)"
  have lenN: "length N = 5" by (simp add: N_def)
  have len: "length ''---\<newline>'' = 4" by simp
  have "ends False (RSeq (lit ''---\<newline>'') (RSeq (RStar False anyChar) (lit N))) (None, content) = E"
    unfolding ends_lit_RSeq len E_def q_def t_def using True by simp
  then have ex: "regex_exec False frontMatterPattern content =
      (case E of [] \<Rightarrow> None
       | e # _ \<Rightarrow> Some ([], take (length content - length (snd e)) content, snd e))"
    unfolding frontMatterPattern_def regex_exec_anchored N_def by simp
  have hd: "(case E of [] \<Rightarrow> None | e # _ \<Rightarrow> Some e) =
        (case firstIndex N t of None \<Rightarrow> None
         | Some k \<Rightarrow> Some (prevOf q (take (k + length N) t), drop (k + length N) t))"
    using take1_head [OF lazy_any_scan, of False "lit N" q t]
    unfolding lazyScan_lit E_def by simp
  have fmo: "frontMatterOf content =
      (case firstIndex N t of Some k \<Rightarrow> take (4 + k + 5) content | None \<Rightarrow> [])"
    using True by (simp add: frontMatterOf_def N_def t_def)
  show ?thesis
  proof (cases "firstIndex N t")
    case None
    with hd have "E = []" by (simp split: list.splits)
    with None show ?thesis unfolding ex fmo by simp
  next
    case (Some k)
    with hd lenN obtain e es where e: "E = e # es" "snd e = drop (k + 5) t"
      by (auto split: list.splits)
    from firstIndex_Some [OF Some] lenN have "k + 5 \<le> length t" by simp
    then have k: "4 + k + 5 \<le> length content" by (simp add: t_def)
    have "length content - length (snd e) = 4 + k + 5" using e(2) k by (simp add: t_def)
    moreover have "snd e = drop (4 + k + 5) content"
      using e(2) by (simp add: t_def add.commute add.left_commute)
    moreover have "take (4 + k + 5) content \<noteq> []" using k by auto
    ultimately show ?thesis
      unfolding ex fmo using e(1) Some k by simp
  qed
qed

lemma greedy_star_hd:
  "\<exists>es. star_iter True (step1 Q) (p, t) = (prevOf p (takeWhile Q t), dropWhile Q t) # es"
proof (induction t arbitrary: p)
  case Nil
  show ?case by (subst star_iter.simps) simp
next
  case (Cons x xs)
  show ?case
  proof (cases "Q x")
    case True
    from Cons.IH [of "Some x"] obtain es where
      es: "star_iter True (step1 Q) (Some x, xs) = (prevOf (Some x) (takeWhile Q xs), dropWhile Q xs) # es"
      by blast
    have "star_iter True (step1 Q) (p, x # xs) = star_iter True (step1 Q) (Some x, xs) @ [(p, x # xs)]"
      using True by (subst star_iter.simps) simp
    with es True show ?thesis by simp
  next
    case False
    have "star_iter True (step1 Q) (p, x # xs) = [(p, x # xs)]"
      using False by (subst star_iter.simps) simp
    with False show ?thesis by simp
  qed
qed

lemma ends_RChr_step: "ends False (RChr c) = step1 (\<lambda>y. y = c)"
  by (rule ext) (auto simp: eqChar_def intro!: arg_cong2 [where f = step1])

lemma isNewline_fun: "(\<lambda>y. y = CHR ''\<newline>'') = isNewline"
  by (rule ext) (simp add: isNewline_def)

lemma dividerPattern_match:
  assumes "prefix ''\<newline>\<newline>---\<newline>'' t"
  shows "\<exists>e es. ends False dividerPattern (p, t) = e # es \<and> snd e = dropWhile isNewline (drop 5 t)"
proof -
  from assms obtain u where t: "t = ''\<newline>\<newline>---\<newline>'' @ u" by (auto simp: prefix_def)
  have pre: "prefix ''\<newline>\<newline>---'' t" unfolding t by simp
  have d5: "drop 5 t = CHR ''\<newline>'' # u" unfolding t by simp
  have len: "length ''\<newline>\<newline>---'' = 5" by simp
  define q where "q = prevOf p ''\<newline>\<newline>---''"
  have "ends False dividerPattern (p, t) = ends False (RPlus True (RChr CHR ''\<newline>'')) (q, CHR ''\<newline>'' # u)"
    unfolding dividerPattern_def ends_lit_RSeq len d5 q_def using pre by simp
  also have "\<dots> = star_iter True (step1 isNewline) (Some CHR ''\<newline>'', u)"
    by (simp add: ends_RChr_step isNewline_fun) (simp add: isNewline_def)
  finally have "ends False dividerPattern (p, t) = star_iter True (step1 isNewline) (Some CHR ''\<newline>'', u)" .
  moreover from greedy_star_hd [of isNewline "Some CHR ''\<newline>''" u] obtain es where
    "star_iter True (step1 isNewline) (Some CHR ''\<newline>'', u)
       = (prevOf (Some CHR ''\<newline>'') (takeWhile isNewline u), dropWhile isNewline u) # es" by blast
  moreover have "dropWhile isNewline (drop 5 t) = dropWhile isNewline u"
    unfolding d5 by (simp add: isNewline_def)
  ultimately show ?thesis by simp
qed

lemma dividerPattern_nomatch:
  assumes "\<not> prefix ''\<newline>\<newline>---\<newline>'' t"
  shows "ends False dividerPattern (p, t) = []"
proof (cases "prefix ''\<newline>\<newline>---'' t")
  case False
  then show ?thesis unfolding dividerPattern_def ends_lit_RSeq by simp
next
  case True
  then obtain u where t: "t = ''\<newline>\<newline>---'' @ u" by (auto simp: prefix_def)
  with assms have u: "\<not> prefix ''\<newline>'' u" by simp
  have len: "length ''\<newline>\<newline>---'' = 5" by simp
  have d5: "drop 5 t = u" unfolding t by simp
  have "ends False (RPlus True (RChr CHR ''\<newline>'')) (q, u) = []" for q
    using u by (cases u) (simp_all add: ends_RChr_step)
  then show ?thesis
    unfolding dividerPattern_def ends_lit_RSeq len d5 using True by simp
qed

lemma dividerPattern_iff:
  "ends False dividerPattern (p, t) \<noteq> [] \<longleftrightarrow> prefix ''\<newline>\<newline>---\<newline>'' t"
  using dividerPattern_match [of t p] dividerPattern_nomatch [of t p] by auto

lemma lazyScan_first:
  assumes "\<And>p t. ends ic r (p, t) \<noteq> [] \<longleftrightarrow> prefix n t"
  shows "lazyScan ic r p t =
     (case firstIndex n t of
        None \<Rightarrow> None
      | Some k \<Rightarrow> Some (hd (ends ic r (prevOf p (take k t), drop k t))))"
proof (induction t arbitrary: p)
  case Nil
  show ?case using assms [of p "[]"] by (cases "ends ic r (p, [])") auto
next
  case (Cons x xs)
  show ?case
  proof (cases "prefix n (x # xs)")
    case True
    with assms [of p "x # xs"] obtain e es where "ends ic r (p, x # xs) = e # es"
      by (cases "ends ic r (p, x # xs)") auto
    with True show ?thesis by simp
  next
    case False
    with assms [of p "x # xs"] have "ends ic r (p, x # xs) = []" by simp
    with False Cons.IH [of "Some x"] show ?thesis by (simp split: option.splits)
  qed
qed

lemma firstIndex_le:
  assumes "prefix n (drop j t)" and "j \<le> length t"
  shows "\<exists>k. firstIndex n t = Some k \<and> k \<le> j"
proof (cases "firstIndex n t")
  case None
  from assms obtain u where "drop j t = n @ u" by (auto simp: prefix_def)
  then have "t = take j t @ n @ u" by (metis append_take_drop_id)
  then have "sublist n t" unfolding sublist_def by blast
  with firstIndex_None [OF None] show ?thesis by simp
next
  case (Some k)
  from firstIndex_Some [OF Some] assms(1) have "\<not> j < k" by blast
  with Some show ?thesis by simp
qed

section \<open>Facts about synthesis\<close>

lemma isAlreadyTagged_header: "isAlreadyTagged (header ts @ rest)"
proof -
  have "header ts @ rest = [] @ marker @ ('' '' @ ts @ ''\<newline>---\<newline>\<newline>'' @ rest)"
    by (simp add: header_def marker_def)
  then have "sublist marker (header ts @ rest)" unfolding sublist_def by blast
  then show ?thesis by (simp add: isAlreadyTagged_def includesStr_iff_sublist)
qed

lemma responseTrimmed_stringResponse:
  "responseTrimmed data = (case stringResponse data of Some s \<Rightarrow> Inr (trim s) | None \<Rightarrow> Inl TypeError)"
  by (auto simp: responseTrimmed_def stringResponse_def split: json.splits option.splits)

lemma set_setAdd: "set (setAdd acc x) = insert x (set acc)"
  by (auto simp: setAdd_def)

lemma distinct_setAdd: "distinct acc \<Longrightarrow> distinct (setAdd acc x)"
  by (simp add: setAdd_def)

lemma collectTags_result:
  "collectTags (toLowerCase content) V acc = Inr added \<Longrightarrow>
     set added = set acc \<union> hashed ` {t \<in> set V. tagMatches content t}
     \<and> (distinct acc \<longrightarrow> distinct added)"
proof (induction V arbitrary: acc)
  case Nil
  then show ?case by simp
next
  case (Cons tag tags)
  from Cons.prems obtain regex where rx: "tagRegex tag = Inr regex"
    by (auto split: sum.splits)
  let ?acc = "if regex_test True regex (toLowerCase content) then setAdd acc (hashed tag) else acc"
  from Cons.prems rx have rec: "collectTags (toLowerCase content) tags ?acc = Inr added" by simp
  have m: "tagMatches content tag \<longleftrightarrow> regex_test True regex (toLowerCase content)"
    by (simp add: tagMatches_def rx)
  from Cons.IH [OF rec] have IH: "set added = set ?acc \<union> hashed ` {t \<in> set tags. tagMatches content t}"
    "distinct ?acc \<longrightarrow> distinct added" by simp_all
  have "set ?acc \<union> hashed ` {t \<in> set tags. tagMatches content t}
        = set acc \<union> hashed ` {t \<in> set (tag # tags). tagMatches content t}"
    using m by (auto simp: set_setAdd)
  moreover have "distinct acc \<longrightarrow> distinct ?acc" by (simp add: distinct_setAdd)
  ultimately show ?case using IH by simp
qed


lemma no_match_unchanged:
  assumes "addDeterministicTags C V = Inr P" and "\<forall>t \<in> set V. \<not> tagMatches C t"
  shows "P = C"
proof -
  from assms(1) obtain added where c: "collectTags (toLowerCase C) V [] = Inr added"
    by (auto simp: addDeterministicTags_def split: sum.splits)
  from collectTags_result [OF c] assms(2) have "set added = {}" by auto
  then have "added = []" by simp
  with assms(1) c show ?thesis by (simp add: addDeterministicTags_def)
qed
section \<open>Facts about the frontmatter block\<close>

lemma closeIndex_Some:
  "closeIndex t = Some i \<Longrightarrow>
     i < length t \<and> isCloseLine (drop i t) \<and> (\<forall>j < i. \<not> isCloseLine (drop j t))"
proof (induction t arbitrary: i)
  case Nil
  then show ?case by simp
next
  case (Cons x xs)
  show ?case
  proof (cases "isCloseLine (x # xs)")
    case True
    with Cons.prems show ?thesis by simp
  next
    case False
    with Cons.prems obtain k where k: "closeIndex xs = Some k" "i = Suc k" by auto
    from Cons.IH [OF k(1)] have IH: "k < length xs" "isCloseLine (drop k xs)"
      "\<forall>j < k. \<not> isCloseLine (drop j xs)" by simp_all
    have "\<not> isCloseLine (drop j (x # xs))" if "j < i" for j
    proof (cases j)
      case 0
      with False show ?thesis by simp
    next
      case (Suc j')
      with that k(2) IH(3) show ?thesis by simp
    qed
    with IH k(2) show ?thesis by simp
  qed
qed

lemma closeIndex_None: "closeIndex t = None \<Longrightarrow> \<not> isCloseLine (drop j t)"
proof (induction t arbitrary: j)
  case Nil
  then show ?case by (simp add: isCloseLine_def)
next
  case (Cons x xs)
  then have f: "\<not> isCloseLine (x # xs)" and n: "closeIndex xs = None"
    by (auto split: if_splits)
  show ?case
  proof (cases j)
    case 0
    with f show ?thesis by simp
  next
    case (Suc j')
    with Cons.IH [OF n] show ?thesis by simp
  qed
qed

lemma firstIndex_eq:
  assumes "prefix n (drop k t)" and "k \<le> length t" and "\<forall>j < k. \<not> prefix n (drop j t)"
  shows "firstIndex n t = Some k"
proof -
  from firstIndex_le [OF assms(1,2)] obtain k' where k': "firstIndex n t = Some k'" "k' \<le> k"
    by blast
  from firstIndex_Some [OF k'(1)] have "prefix n (drop k' t)" by simp
  with assms(3) have "\<not> k' < k" by blast
  with k' show ?thesis by simp
qed

text \<open>
  Where the content has no leading frontmatter block, the pass finds none. Where it has
  one with at least one line between the opening and the closing line, and the closing
  line ends with a line break, the pass finds that block.
\<close>

lemma no_block_none_found:
  assumes "leadingFrontMatter content = None"
  shows "frontMatterOf content = []"
proof (cases "prefix ''---\<newline>'' content")
  case False
  then show ?thesis by (simp add: frontMatterOf_def)
next
  case True
  with assms have n: "closeIndex (drop 3 content) = None"
    by (simp add: leadingFrontMatter_def split: option.splits)
  have "firstIndex ''\<newline>---\<newline>'' (drop 4 content) = None"
  proof (rule ccontr)
    assume "firstIndex ''\<newline>---\<newline>'' (drop 4 content) \<noteq> None"
    then obtain k where "firstIndex ''\<newline>---\<newline>'' (drop 4 content) = Some k" by blast
    from firstIndex_Some [OF this] have "prefix ''\<newline>---\<newline>'' (drop (Suc k) (drop 3 content))"
      by (simp add: add.commute)
    then have "isCloseLine (drop (Suc k) (drop 3 content))" by (simp add: isCloseLine_def)
    with closeIndex_None [OF n] show False by blast
  qed
  with True show ?thesis by (simp add: frontMatterOf_def)
qed

lemma closed_block_found:
  assumes "leadingFrontMatter content = Some fm"
      and "8 < length fm" and "last fm = CHR ''\<newline>''"
  shows "frontMatterOf content = fm"
proof -
  define t where "t = drop 3 content"
  define N where "N = ''\<newline>---\<newline>''"
  define E where "E = ''\<newline>---''"
  have lE: "length E = 4" and lastE: "last E = CHR ''-''" and Ene: "E \<noteq> []"
    by (simp_all add: E_def)
  have close: "isCloseLine u \<longleftrightarrow> u = E \<or> prefix N u" for u
    by (simp add: isCloseLine_def E_def N_def)
  from assms(1) have p: "prefix ''---\<newline>'' content"
    by (simp add: leadingFrontMatter_def split: if_splits)
  with assms(1) obtain i where i: "closeIndex t = Some i" "fm = take (i + 8) content"
    by (auto simp: leadingFrontMatter_def t_def split: option.splits)
  from closeIndex_Some [OF i(1)] have c: "i < length t" "isCloseLine (drop i t)"
    "\<forall>j < i. \<not> isCloseLine (drop j t)" by simp_all
  from assms(2) i(2) have pos: "0 < i" by simp
  have len: "length content = length t + 3"
    using c(1) by (simp add: t_def)
  have nl: "prefix N (drop i t)"
  proof (rule ccontr)
    assume "\<not> prefix N (drop i t)"
    with c(2) have e: "drop i t = E" unfolding close by blast
    then have "length (drop i t) = 4" using lE by simp
    then have "length t = i + 4" using c(1) by simp
    with len have l: "length content = i + 7" by simp
    then have fc: "fm = content" using i(2) by simp
    have "drop (i + 3) content = drop i t"
      unfolding t_def by (simp add: add.commute)
    then have "content = take (i + 3) content @ E"
      using e by (metis append_take_drop_id)
    then have "last content = last E" using Ene by (metis last_appendR)
    with fc lastE assms(3) show False by simp
  qed
  define k where "k = i - 1"
  with pos have ik: "i = Suc k" by simp
  have d: "drop j (drop 4 content) = drop (Suc j) t" for j
    unfolding t_def by (simp add: add.commute)
  have f1: "prefix N (drop k (drop 4 content))"
    using nl unfolding d ik .
  have f2: "k \<le> length (drop 4 content)"
    using len c(1) ik by simp
  have f3: "\<forall>j < k. \<not> prefix N (drop j (drop 4 content))"
  proof (intro allI impI)
    fix j assume "j < k"
    then have "Suc j < i" using ik by simp
    with c(3) have "\<not> isCloseLine (drop (Suc j) t)" by blast
    then show "\<not> prefix N (drop j (drop 4 content))"
      unfolding d close by blast
  qed
  from firstIndex_eq [OF f1 f2 f3] have "firstIndex ''\<newline>---\<newline>'' (drop 4 content) = Some k"
    by (simp add: N_def)
  with p have "frontMatterOf content = take (4 + k + 5) content"
    by (simp add: frontMatterOf_def)
  with i(2) ik show ?thesis by simp
qed

section \<open>Facts about untagging\<close>

lemma head_of_take1:
  "take 1 xs = (case y of None \<Rightarrow> [] | Some e \<Rightarrow> [e]) \<Longrightarrow> y = Some e \<Longrightarrow> \<exists>es. xs = e # es"
  by (cases xs) auto

lemma drop_append_le: "n \<le> length xs \<Longrightarrow> drop n (xs @ ys) = drop n xs @ ys"
  by simp

lemma summary_region:
  "\<exists>e es W0. ends False (RSeq (RStar False anyChar) dividerPattern) (p, Z @ divider @ P) = e # es
      \<and> snd e = dropWhile isNewline (W0 @ ''\<newline>\<newline>'' @ P)"
proof -
  define X where "X = Z @ divider @ P"
  define n where "n = ''\<newline>\<newline>---\<newline>''"
  have dz: "drop (length Z) X = n @ ''\<newline>'' @ P"
    by (simp add: X_def n_def divider_def)
  then have "prefix n (drop (length Z) X)" by simp
  moreover have "length Z \<le> length X" by (simp add: X_def)
  ultimately obtain k where k: "firstIndex n X = Some k" "k \<le> length Z"
    using firstIndex_le by blast
  from firstIndex_Some [OF k(1)] have pk: "prefix n (drop k X)" by simp
  from dividerPattern_match [OF pk [unfolded n_def], of "prevOf p (take k X)"]
  obtain e es where e: "ends False dividerPattern (prevOf p (take k X), drop k X) = e # es"
      "snd e = dropWhile isNewline (drop 5 (drop k X))" by blast
  have scan: "lazyScan False dividerPattern p X = Some e"
    using lazyScan_first [of False dividerPattern n p X] dividerPattern_iff k(1) e(1)
    by (simp add: n_def)
  from head_of_take1 [OF lazy_any_scan scan]
  obtain es' where hd: "ends False (RSeq (RStar False anyChar) dividerPattern) (p, X) = e # es'"
    by blast
  have "drop 5 (drop k X) = drop (k + 5) X" by (simp add: add.commute)
  also have "\<dots> = drop (k + 5) (Z @ ''\<newline>\<newline>---'') @ ''\<newline>\<newline>'' @ P"
  proof -
    define Z' where "Z' = Z @ ''\<newline>\<newline>---''"
    have "X = Z' @ (''\<newline>\<newline>'' @ P)" by (simp add: X_def Z'_def divider_def)
    moreover have "k + 5 \<le> length Z'" using k(2) by (simp add: Z'_def)
    ultimately show ?thesis unfolding Z'_def [symmetric] by (simp only: drop_append_le)
  qed
  finally have "snd e = dropWhile isNewline (drop (k + 5) (Z @ ''\<newline>\<newline>---'') @ ''\<newline>\<newline>'' @ P)"
    using e(2) by simp
  with hd show ?thesis unfolding X_def by blast
qed

lemma header_region:
  "\<exists>e W0. lazyScan False (RSeq (lit ''---\<newline>\<newline>'') (RSeq (RStar False anyChar) dividerPattern)) p
              (A @ ''---\<newline>\<newline>'' @ Y @ divider @ P) = Some e
      \<and> snd e = dropWhile isNewline (W0 @ ''\<newline>\<newline>'' @ P)"
proof (induction A arbitrary: p)
  case Nil
  define t where "t = ''---\<newline>\<newline>'' @ Y @ divider @ P"
  have len: "length ''---\<newline>\<newline>'' = 5" by simp
  have pre: "prefix ''---\<newline>\<newline>'' t" and d: "drop 5 t = Y @ divider @ P" by (simp_all add: t_def)
  from summary_region [of "prevOf p ''---\<newline>\<newline>''" Y P] obtain e es W0 where
    e: "ends False (RSeq (RStar False anyChar) dividerPattern) (prevOf p ''---\<newline>\<newline>'', Y @ divider @ P) = e # es"
       "snd e = dropWhile isNewline (W0 @ ''\<newline>\<newline>'' @ P)" by blast
  have "ends False (RSeq (lit ''---\<newline>\<newline>'') (RSeq (RStar False anyChar) dividerPattern)) (p, t) = e # es"
    unfolding ends_lit_RSeq len d using pre e(1) by simp
  then have "lazyScan False (RSeq (lit ''---\<newline>\<newline>'') (RSeq (RStar False anyChar) dividerPattern)) p t = Some e"
    by (cases t) simp_all
  with e(2) show ?case unfolding t_def by auto
next
  case (Cons a A)
  define t where "t = (a # A) @ ''---\<newline>\<newline>'' @ Y @ divider @ P"
  define R where "R = RSeq (lit ''---\<newline>\<newline>'') (RSeq (RStar False anyChar) dividerPattern)"
  have len: "length ''---\<newline>\<newline>'' = 5" by simp
  have tc: "t = a # (A @ ''---\<newline>\<newline>'' @ Y @ divider @ P)" by (simp add: t_def)
  show ?case
  proof (cases "prefix ''---\<newline>\<newline>'' t")
    case True
    define T' where "T' = (a # A) @ ''---\<newline>\<newline>'' @ Y"
    have "t = T' @ (divider @ P)" by (simp add: t_def T'_def)
    moreover have "5 \<le> length T'" by (simp add: T'_def)
    ultimately have "drop 5 t = drop 5 T' @ divider @ P" by (simp only: drop_append_le)
    then obtain Z where Z: "drop 5 t = Z @ divider @ P" by blast
    from summary_region [of "prevOf p ''---\<newline>\<newline>''" Z P] obtain e es W0 where
      e: "ends False (RSeq (RStar False anyChar) dividerPattern) (prevOf p ''---\<newline>\<newline>'', Z @ divider @ P) = e # es"
         "snd e = dropWhile isNewline (W0 @ ''\<newline>\<newline>'' @ P)" by blast
    have "ends False R (p, t) = e # es"
      unfolding R_def ends_lit_RSeq len Z using True e(1) by simp
    then have "lazyScan False R p t = Some e" unfolding tc by simp
    with e(2) show ?thesis unfolding t_def R_def by auto
  next
    case False
    then have "ends False R (p, t) = []" unfolding R_def ends_lit_RSeq by simp
    then have "lazyScan False R p t = lazyScan False R (Some a) (A @ ''---\<newline>\<newline>'' @ Y @ divider @ P)"
      unfolding tc by simp
    with Cons.IH [of "Some a"] show ?thesis unfolding t_def R_def by simp
  qed
qed

lemma regex_exec_at_start:
  assumes "ends ic r (None, s) = e # es"
  shows "regex_exec ic r s = Some ([], take (length s - length (snd e)) s, snd e)"
proof (cases s)
  case Nil
  from assms have "e \<in> set (ends ic r (None, s))" by simp
  from ends_suffix [OF this] Nil have "snd e = []" by simp
  with assms Nil show ?thesis by (simp add: regex_exec_def)
next
  case (Cons x xs)
  with assms show ?thesis by (simp add: regex_exec_def)
qed

lemma taggedSectionPattern_alt:
  "taggedSectionPattern =
     RSeq (lit marker) (RSeq (RStar False anyChar)
       (RSeq (lit ''---\<newline>\<newline>'') (RSeq (RStar False anyChar) dividerPattern)))"
  by (simp add: taggedSectionPattern_def marker_def dividerPattern_def)

lemma tagged_section_removed:
  "\<exists>W0. regex_replace False taggedSectionPattern [] (header ts @ S @ divider @ P)
          = dropWhile isNewline (W0 @ ''\<newline>\<newline>'' @ P)
        \<and> length (regex_replace False taggedSectionPattern [] (header ts @ S @ divider @ P))
            < length (header ts @ S @ divider @ P)"
proof -
  define A where "A = '' '' @ ts @ ''\<newline>''"
  define rest where "rest = A @ ''---\<newline>\<newline>'' @ S @ divider @ P"
  define R where "R = RSeq (lit ''---\<newline>\<newline>'') (RSeq (RStar False anyChar) dividerPattern)"
  have O: "header ts @ S @ divider @ P = marker @ rest"
    by (simp add: header_def marker_def rest_def A_def)
  have pre: "prefix marker (marker @ rest)" "drop (length marker) (marker @ rest) = rest" by simp_all
  from header_region [of "prevOf None marker" A S P] obtain e W0 where
    e: "lazyScan False R (prevOf None marker) rest = Some e"
       "snd e = dropWhile isNewline (W0 @ ''\<newline>\<newline>'' @ P)"
    unfolding R_def rest_def by blast
  from head_of_take1 [OF lazy_any_scan e(1)] obtain es where
    es: "ends False (RSeq (RStar False anyChar) R) (prevOf None marker, rest) = e # es" by blast
  then have "e \<in> set (ends False (RSeq (RStar False anyChar) R) (prevOf None marker, rest))" by simp
  from ends_suffix [OF this] have "length (snd e) \<le> length rest"
    by (simp add: suffix_length_le)
  moreover have "length marker = 15" by (simp add: marker_def)
  ultimately have short: "length (snd e) < length (marker @ rest)" by simp
  from es have "ends False taggedSectionPattern (None, marker @ rest) = e # es"
    unfolding taggedSectionPattern_alt R_def ends_lit_RSeq pre by simp
  from regex_exec_at_start [OF this] have "regex_replace False taggedSectionPattern [] (marker @ rest) = snd e"
    by (simp add: regex_replace_def)
  with e(2) short show ?thesis unfolding O by auto
qed

lemma isWhiteSpace_not_word: "isWhiteSpace c \<Longrightarrow> \<not> isWordChar c"
  by (auto simp: isWhiteSpace_def isWordChar_def Let_def)

lemma ends_word_class: "ends False (RCls [CWord]) = step1 isWordChar"
  by (rule ext) (auto intro!: arg_cong2 [where f = step1])

lemma ends_space_class: "ends False (RCls [CSpace]) = step1 isWhiteSpace"
  by (rule ext) (auto intro!: arg_cong2 [where f = step1])

lemma ends_space_star: "ends False (RStar True (RCls [CSpace])) = star_iter True (step1 isWhiteSpace)"
  by (rule ext) (simp add: ends_space_class)

lemma tagPattern_alt: "tagPattern = RSeq RBol (RPlus True hashtagToken)"
  by (simp add: tagPattern_def hashtagToken_def)

lemma word_then_space:
  "\<exists>e es. ends False (RSeq (RPlus True (RCls [CWord])) (RStar True (RCls [CSpace]))) (q, w # rest)
      = (if isWordChar w then e # es else [])
    \<and> snd e = dropWhile isWhiteSpace (dropWhile isWordChar rest)"
proof (cases "isWordChar w")
  case False
  then show ?thesis by (simp add: ends_word_class)
next
  case True
  from greedy_star_hd [of isWordChar "Some w" rest] obtain es1 where
    w: "star_iter True (step1 isWordChar) (Some w, rest)
          = (prevOf (Some w) (takeWhile isWordChar rest), dropWhile isWordChar rest) # es1" by blast
  from greedy_star_hd [of isWhiteSpace "prevOf (Some w) (takeWhile isWordChar rest)" "dropWhile isWordChar rest"]
  obtain e es2 where
    s: "star_iter True (step1 isWhiteSpace)
          (prevOf (Some w) (takeWhile isWordChar rest), dropWhile isWordChar rest) = e # es2"
       "snd e = dropWhile isWhiteSpace (dropWhile isWordChar rest)" by auto
  have "ends False (RSeq (RPlus True (RCls [CWord])) (RStar True (RCls [CSpace]))) (q, w # rest)
        = concat (map (star_iter True (step1 isWhiteSpace)) (star_iter True (step1 isWordChar) (Some w, rest)))"
    using True by (simp add: ends_word_class ends_space_star del: ends.simps(11))
  with w s show ?thesis using True by simp
qed

lemma token_ends_None: "tokenEnd s = None \<Longrightarrow> ends False hashtagToken (p, s) = []"
proof -
  assume n: "tokenEnd s = None"
  show ?thesis
  proof (cases s)
    case Nil
    then show ?thesis unfolding hashtagToken_def ends_RChr_RSeq by simp
  next
    case (Cons c t)
    show ?thesis
    proof (cases t)
      case Nil
      with Cons show ?thesis unfolding hashtagToken_def ends_RChr_RSeq
        by (simp add: ends_word_class)
    next
      case (Cons w rest)
      with \<open>s = c # t\<close> n have "c \<noteq> CHR ''#'' \<or> \<not> isWordChar w"
        by (auto simp: tokenEnd_def split: if_splits)
      with word_then_space [of "Some c" w rest] Cons \<open>s = c # t\<close> show ?thesis
        unfolding hashtagToken_def ends_RChr_RSeq by auto
    qed
  qed
qed

lemma token_ends_Some:
  "tokenEnd s = Some s' \<Longrightarrow> \<exists>e es. ends False hashtagToken (p, s) = e # es \<and> snd e = s'"
proof -
  assume a: "tokenEnd s = Some s'"
  then obtain w rest where s: "s = CHR ''#'' # w # rest" "isWordChar w"
      "s' = dropWhile isWhiteSpace (dropWhile isWordChar rest)"
    by (auto simp: tokenEnd_def split: list.splits if_splits)
  with word_then_space [of "Some CHR ''#''" w rest] show ?thesis
    unfolding hashtagToken_def ends_RChr_RSeq by auto
qed

lemma tokenEnd_shorter: "tokenEnd s = Some s' \<Longrightarrow> length s' < length s"
proof -
  assume a: "tokenEnd s = Some s'"
  then obtain w rest where s: "s = CHR ''#'' # w # rest"
      "s' = dropWhile isWhiteSpace (dropWhile isWordChar rest)"
    by (auto simp: tokenEnd_def split: list.splits if_splits)
  have "length s' \<le> length rest"
    unfolding s(2) by (meson length_dropWhile_le order_trans)
  with s(1) show ?thesis by simp
qed

lemma last_dropWhile: "dropWhile P xs \<noteq> [] \<Longrightarrow> last (dropWhile P xs) = last xs"
  by (induction xs) (auto split: if_splits)

lemma dropWhile_keeps_last:
  "xs \<noteq> [] \<Longrightarrow> \<not> P (last xs) \<Longrightarrow> dropWhile P xs \<noteq> [] \<and> last (dropWhile P xs) = last xs"
proof -
  assume a: "xs \<noteq> []" "\<not> P (last xs)"
  then have "\<exists>x \<in> set xs. \<not> P x" using last_in_set by blast
  then have "dropWhile P xs \<noteq> []" by simp
  then show ?thesis by (simp add: last_dropWhile)
qed

lemma dropWhile_append_last:
  "xs \<noteq> [] \<Longrightarrow> \<not> P (last xs) \<Longrightarrow> dropWhile P (xs @ ys) = dropWhile P xs @ ys"
  using last_in_set dropWhile_append1 by metis

lemma keeps_after_dropWhile:
  assumes "Y \<noteq> []" and "isWhiteSpace (last Y)" and "dropWhile isWhiteSpace body = body"
      and "\<And>c. Q c \<Longrightarrow> isWhiteSpace c"
  shows "keeps body (dropWhile Q (Y @ body))"
proof (cases "\<forall>x \<in> set Y. Q x")
  case True
  have "dropWhile Q body = body"
  proof (cases body)
    case Nil then show ?thesis by simp
  next
    case (Cons b bs)
    with assms(3) have "\<not> isWhiteSpace b" by (metis dropWhile_eq_self_iff list.sel(1) list.distinct(1))
    with assms(4) Cons show ?thesis by auto
  qed
  with True have "dropWhile Q (Y @ body) = body" by simp
  then show ?thesis unfolding keeps_def by (metis append_Nil)
next
  case False
  then have "dropWhile Q (Y @ body) = dropWhile Q Y @ body"
    using dropWhile_append1 by (metis)
  moreover from False have ne: "dropWhile Q Y \<noteq> []" by simp
  moreover from ne have "last (dropWhile Q Y) = last Y" by (rule last_dropWhile)
  ultimately show ?thesis unfolding keeps_def using assms(2) by metis
qed

lemma keeps_token:
  assumes "keeps body s" and "\<not> startsWithHashtag body" and "dropWhile isWhiteSpace body = body"
      and "tokenEnd s = Some s'"
  shows "keeps body s'"
proof -
  from assms(1) obtain Y where Y: "s = Y @ body" "Y = [] \<or> isWhiteSpace (last Y)"
    unfolding keeps_def by blast
  from assms(4) obtain w rest where s: "s = CHR ''#'' # w # rest" "isWordChar w"
      "s' = dropWhile isWhiteSpace (dropWhile isWordChar rest)"
    by (auto simp: tokenEnd_def split: list.splits if_splits)
  have "Y \<noteq> []"
  proof
    assume "Y = []"
    with Y s have "body = CHR ''#'' # w # rest" by simp
    with s(2) assms(2) show False by (simp add: startsWithHashtag_def)
  qed
  with Y(2) have ws: "isWhiteSpace (last Y)" by simp
  have nh: "\<not> isWhiteSpace CHR ''#''" by (simp add: isWhiteSpace_def)
  from \<open>Y \<noteq> []\<close> Y(1) s(1) obtain Y1 where Y1: "Y = CHR ''#'' # Y1" by (cases Y) auto
  with ws nh have "Y1 \<noteq> []" by auto
  with Y1 Y(1) s(1) obtain Y2 where Y2: "Y1 = w # Y2" by (cases Y1) auto
  from ws Y1 Y2 s(2) isWhiteSpace_not_word have "Y2 \<noteq> []" by auto
  with Y1 Y2 ws have ws2: "isWhiteSpace (last Y2)" by simp
  from Y(1) s(1) Y1 Y2 have rest: "rest = Y2 @ body" by simp
  from ws2 isWhiteSpace_not_word have nw: "\<not> isWordChar (last Y2)" by blast
  have d1: "dropWhile isWordChar rest = dropWhile isWordChar Y2 @ body"
    unfolding rest using dropWhile_append_last [of Y2 isWordChar body] \<open>Y2 \<noteq> []\<close> nw by simp
  from dropWhile_keeps_last [of Y2 isWordChar] \<open>Y2 \<noteq> []\<close> nw ws2
  have Y3: "dropWhile isWordChar Y2 \<noteq> []" "isWhiteSpace (last (dropWhile isWordChar Y2))" by simp_all
  from keeps_after_dropWhile [OF Y3 assms(3), of isWhiteSpace] show ?thesis
    unfolding s(3) d1 by simp
qed

lemma star_keeps:
  assumes "\<not> startsWithHashtag body" and "dropWhile isWhiteSpace body = body"
  shows "keeps body (snd st) \<Longrightarrow>
     \<exists>e es. star_iter True (ends False hashtagToken) st = e # es \<and> keeps body (snd e)"
proof (induction "length (snd st)" arbitrary: st rule: less_induct)
  case less
  obtain p s where st: "st = (p, s)" by (cases st)
  show ?case
  proof (cases "tokenEnd s")
    case None
    from token_ends_None [OF None, of p] have "star_iter True (ends False hashtagToken) st = [st]"
      unfolding st by (subst star_iter.simps) simp
    with less.prems show ?thesis by simp
  next
    case (Some s')
    from token_ends_Some [OF Some, of p] obtain e1 es1 where
      e1: "ends False hashtagToken (p, s) = e1 # es1" "snd e1 = s'" by blast
    from tokenEnd_shorter [OF Some] e1(2) have sh: "length (snd e1) < length (snd st)"
      by (simp add: st)
    from less.prems st have "keeps body s" by simp
    from keeps_token [OF this assms Some] e1(2) have "keeps body (snd e1)" by simp
    from less.hyps [OF sh this] obtain e es where
      e: "star_iter True (ends False hashtagToken) e1 = e # es" "keeps body (snd e)" by blast
    have "star_iter True (ends False hashtagToken) st =
          (star_iter True (ends False hashtagToken) e1
             @ concat (map (star_iter True (ends False hashtagToken))
                  (filter (\<lambda>st'. length (snd st') < length (snd st)) es1))) @ [st]"
      using e1(1) sh unfolding st by (subst star_iter.simps) simp
    with e show ?thesis by simp
  qed
qed

lemma strip_keeps:
  assumes "keeps body c" and "\<not> startsWithHashtag body" and "dropWhile isWhiteSpace body = body"
      and "regex_test False tagPattern c"
  shows "keeps body (regex_replace False tagPattern [] c)"
proof -
  from assms(4) have "startsWithHashtag c" by (simp add: tagPattern_test)
  then obtain s' where s': "tokenEnd c = Some s'"
    by (auto simp: startsWithHashtag_def tokenEnd_def split: list.splits)
  from token_ends_Some [OF s', of None] obtain e1 es1 where
    e1: "ends False hashtagToken (None, c) = e1 # es1" "snd e1 = s'" by blast
  from keeps_token [OF assms(1-3) s'] e1(2) have "keeps body (snd e1)" by simp
  from star_keeps [OF assms(2,3) this] obtain e es where
    e: "star_iter True (ends False hashtagToken) e1 = e # es" "keeps body (snd e)" by blast
  have "ends False (RPlus True hashtagToken) (None, c) =
        star_iter True (ends False hashtagToken) e1
          @ concat (map (star_iter True (ends False hashtagToken)) es1)"
    using e1(1) by simp
  with e(1) obtain es' where "ends False (RPlus True hashtagToken) (None, c) = e # es'" by simp
  then have "regex_exec False tagPattern c = Some ([], take (length c - length (snd e)) c, snd e)"
    unfolding tagPattern_alt regex_exec_anchored by simp
  then have "regex_replace False tagPattern [] c = snd e" by (simp add: regex_replace_def)
  with e(2) show ?thesis by simp
qed

lemma trim_eq: "trim C = rev (dropWhile isWhiteSpace (rev (dropWhile isWhiteSpace C)))"
  by (simp add: trim_def)

lemma rtrim_prefix: "\<exists>T. body = rev (dropWhile Q (rev body)) @ T"
proof -
  have "rev body = takeWhile Q (rev body) @ dropWhile Q (rev body)" by simp
  then have "body = rev (dropWhile Q (rev body)) @ rev (takeWhile Q (rev body))"
    by (metis rev_append rev_rev_ident)
  then show ?thesis by blast
qed

lemma keeps_sublist:
  assumes "keeps body X" and "dropWhile isWhiteSpace body = body"
  shows "sublist (rev (dropWhile isWhiteSpace (rev body))) X
       \<and> sublist (rev (dropWhile isWhiteSpace (rev body))) (trim X)"
proof -
  define rt where "rt = rev (dropWhile isWhiteSpace (rev body))"
  from assms(1) obtain Y where Y: "X = Y @ body" unfolding keeps_def by blast
  from rtrim_prefix [of body isWhiteSpace] obtain T where T: "body = rt @ T" unfolding rt_def by blast
  have a: "sublist rt X" unfolding Y sublist_def using T by (metis append.assoc)
  have b: "sublist rt (trim X)"
  proof (cases "rt = []")
    case True
    then show ?thesis by simp
  next
    case False
    then have nz: "\<exists>x \<in> set (rev body). \<not> isWhiteSpace x"
      unfolding rt_def by (simp add: dropWhile_eq_Nil_conv)
    then have "body \<noteq> []" by auto
    with assms(2) have hd: "\<not> isWhiteSpace (hd body)"
      by (metis dropWhile_eq_self_iff)
    obtain Z where Z: "dropWhile isWhiteSpace X = Z @ body"
    proof (cases "\<forall>x \<in> set Y. isWhiteSpace x")
      case True
      then have "dropWhile isWhiteSpace X = body" unfolding Y using assms(2) by simp
      then show ?thesis using that [of "[]"] by simp
    next
      case False
      then have "dropWhile isWhiteSpace X = dropWhile isWhiteSpace Y @ body"
        unfolding Y using dropWhile_append1 by metis
      then show ?thesis using that by blast
    qed
    have "dropWhile isWhiteSpace (rev body @ rev Z) = dropWhile isWhiteSpace (rev body) @ rev Z"
      using nz dropWhile_append1 by metis
    then have "trim X = Z @ rt"
      unfolding trim_def Z rt_def by simp
    then show ?thesis unfolding sublist_def by (metis append_Nil2)
  qed
  from a b show ?thesis unfolding rt_def by simp
qed

lemma det_form:
  assumes "addDeterministicTags C V = Inr P"
      and "frontMatterOf C = [] \<or> (\<forall>t \<in> set V. \<not> tagMatches C t)"
  shows "\<exists>Pre. P = Pre @ C \<and> (Pre = [] \<or> isWhiteSpace (last Pre))"
proof -
  from assms(1) obtain added where c: "collectTags (toLowerCase C) V [] = Inr added"
    by (auto simp: addDeterministicTags_def split: sum.splits)
  from collectTags_result [OF c] have s: "set added = hashed ` {t \<in> set V. tagMatches C t}" by simp
  show ?thesis
  proof (cases "added = []")
    case True
    with assms(1) c have "P = [] @ C" by (auto simp: addDeterministicTags_def)
    then show ?thesis by blast
  next
    case False
    then have "set added \<noteq> {}" by simp
    with s have "{t \<in> set V. tagMatches C t} \<noteq> {}" by auto
    then have "\<exists>t \<in> set V. tagMatches C t" by blast
    with assms(2) have fm: "frontMatterOf C = []" by blast
    with assms(1) c False have "P = (join '' '' added @ '' '') @ C"
      by (auto simp: addDeterministicTags_def frontMatter_exec)
    moreover have "isWhiteSpace (last (join '' '' added @ '' ''))" by (simp add: isWhiteSpace_def)
    ultimately show ?thesis by blast
  qed
qed

lemma isNewline_ws: "isNewline c \<Longrightarrow> isWhiteSpace c"
  by (simp add: isNewline_def isWhiteSpace_def)

lemma untag_step2:
  assumes "keeps body c" and "\<not> startsWithHashtag body" and "dropWhile isWhiteSpace body = body"
  shows "sublist (rev (dropWhile isWhiteSpace (rev body)))
           (if regex_test False tagPattern c then trim (regex_replace False tagPattern [] c) else c)"
proof (cases "regex_test False tagPattern c")
  case True
  from strip_keeps [OF assms True] keeps_sublist assms(3) True show ?thesis by simp
next
  case False
  with keeps_sublist [OF assms(1,3)] show ?thesis by simp
qed

lemma keeps_prefixed:
  assumes "Y = [] \<or> isWhiteSpace (last Y)"
  shows "keeps (dropWhile isWhiteSpace C) (Y @ C)"
proof -
  define L where "L = takeWhile isWhiteSpace C"
  have C: "C = L @ dropWhile isWhiteSpace C" by (simp add: L_def)
  have L: "\<forall>x \<in> set L. isWhiteSpace x" unfolding L_def by (meson set_takeWhileD)
  have "Y @ L = [] \<or> isWhiteSpace (last (Y @ L))"
  proof (cases "L = []")
    case True
    with assms show ?thesis by simp
  next
    case False
    then have "last (Y @ L) = last L" by simp
    with False L show ?thesis using last_in_set by metis
  qed
  moreover have "Y @ C = (Y @ L) @ dropWhile isWhiteSpace C" using C by (metis append.assoc)
  ultimately show ?thesis unfolding keeps_def by blast
qed

section \<open>The outcomes of the tagging operations\<close>

lemma untouched_refl [simp]: "untouched w w"
  by (simp add: untouched_def)

lemma untouched_notify [simp]: "untouched w (notify n w)"
  by (simp add: untouched_def notify_def)

lemma tagAndWrite_outcomes:
  assumes "tagAndWrite e ann file A tags w = Inr w'"
  shows "untouched (during e w) w'
       \<or> (\<exists>c. processContentWithOllama (settings w) A tags (reply e) (timestamp e) = Inr c
              \<and> c \<noteq> A \<and> vault (during e w) (path file) = Some A
              \<and> written file c (now e) (during e w) w')"
  using assms
  by (auto simp: tagAndWrite_def Let_def written_def notify_def modify_def recordTagged_def
                 untouched_def
           split: sum.splits option.splits if_splits)

lemma autoTagFile_outcomes:
  assumes "autoTagFile e file w = Inr w'"
  shows "untouched w w' \<or> (\<exists>A. vault w (path file) = Some A
           \<and> tagAndWrite e False file A (defaultTags (settings w)) w = Inr w')"
  using assms
  by (auto simp: autoTagFile_def split: sum.splits option.splits if_splits bool.splits)

lemma autoTagFileOnClose_outcomes:
  assumes "autoTagFileOnClose e file w = Inr w'"
  shows "untouched w w' \<or> (\<exists>A. vault w (path file) = Some A
           \<and> tagAndWrite e False file A (defaultTags (settings w)) w = Inr w')"
  using assms
  by (auto simp: autoTagFileOnClose_def split: sum.splits option.splits if_splits bool.splits)

lemma tagCurrentDocument_outcomes:
  assumes "tagCurrentDocument e file tags w = Inr w'"
  shows "untouched w w' \<or> (\<exists>A. vault w (path file) = Some A
           \<and> tagAndWrite e True file A tags w = Inr w')"
  using assms
  by (auto simp: tagCurrentDocument_def split: sum.splits option.splits if_splits bool.splits)

lemma addTagsToDocuments_one_outcomes:
  assumes "addTagsToDocuments [(file, e)] tags w = Inr w'"
  shows "untouched w w' \<or> (\<exists>A. vault w (path file) = Some A
           \<and> tagAndWrite e True file A tags w = Inr w')"
  using assms
  by (auto split: sum.splits option.splits if_splits bool.splits)

section \<open>The staleness guard\<close>

text \<open>
  Claim C1 (staleness abort). The document held \<open>A\<close> when the operation read it, and
  holds \<open>B \<noteq> A\<close> when the call to the service has resolved. Then the shared block makes no
  write: the vault, the write log and the settings are what the other tasks left, and
  the document still holds \<open>B\<close>. Each of the four operations either returned before the
  call without touching anything, or ends in that same state.
\<close>

theorem staleness_abort:
  assumes "vault w (path file) = Some A"
      and "vault (during e w) (path file) = Some B"
      and "B \<noteq> A"
  shows "(\<forall>w'. tagAndWrite e ann file A tags w = Inr w'
            \<longrightarrow> untouched (during e w) w' \<and> vault w' (path file) = Some B)
       \<and> (\<forall>w'. autoTagFile e file w = Inr w'
            \<longrightarrow> untouched w w' \<or> untouched (during e w) w')
       \<and> (\<forall>w'. autoTagFileOnClose e file w = Inr w'
            \<longrightarrow> untouched w w' \<or> untouched (during e w) w')
       \<and> (\<forall>w'. tagCurrentDocument e file tags w = Inr w'
            \<longrightarrow> untouched w w' \<or> untouched (during e w) w')
       \<and> (\<forall>w'. addTagsToDocuments [(file, e)] tags w = Inr w'
            \<longrightarrow> untouched w w' \<or> untouched (during e w) w')"
proof -
  have core: "untouched (during e w) w'" if "tagAndWrite e a file A ts w = Inr w'" for a ts w'
    using tagAndWrite_outcomes [OF that] assms by auto
  have c1: "\<forall>w'. tagAndWrite e ann file A tags w = Inr w'
            \<longrightarrow> untouched (during e w) w' \<and> vault w' (path file) = Some B"
    using core assms by (auto simp: untouched_def)
  have c2: "\<forall>w'. autoTagFile e file w = Inr w'
            \<longrightarrow> untouched w w' \<or> untouched (during e w) w'"
    using autoTagFile_outcomes core assms(1) by fastforce
  have c3: "\<forall>w'. autoTagFileOnClose e file w = Inr w'
            \<longrightarrow> untouched w w' \<or> untouched (during e w) w'"
    using autoTagFileOnClose_outcomes core assms(1) by fastforce
  have c4: "\<forall>w'. tagCurrentDocument e file tags w = Inr w'
            \<longrightarrow> untouched w w' \<or> untouched (during e w) w'"
    using tagCurrentDocument_outcomes core assms(1) by fastforce
  have c5: "\<forall>w'. addTagsToDocuments [(file, e)] tags w = Inr w'
            \<longrightarrow> untouched w w' \<or> untouched (during e w) w'"
    using addTagsToDocuments_one_outcomes core assms(1) by fastforce
  from c1 c2 c3 c4 c5 show ?thesis by blast
qed

theorem staleness_abort_witness:
  "vault (ex_world ''I study ml today'') (path ex_file) = Some ''I study ml today''
   \<and> vault (during (ex_env ''A note. #ai'' ex_edit) (ex_world ''I study ml today'')) (path ex_file)
       = Some ''I study ml today and tomorrow''
   \<and> \<not> isl (tagAndWrite (ex_env ''A note. #ai'' ex_edit) False ex_file ''I study ml today''
               [''ml''] (ex_world ''I study ml today''))
   \<and> untouched (during (ex_env ''A note. #ai'' ex_edit) (ex_world ''I study ml today''))
       (projr (tagAndWrite (ex_env ''A note. #ai'' ex_edit) False ex_file ''I study ml today''
                 [''ml''] (ex_world ''I study ml today'')))
   \<and> vault (projr (tagAndWrite (ex_env ''A note. #ai'' ex_edit) False ex_file
                      ''I study ml today'' [''ml''] (ex_world ''I study ml today'')))
        (path ex_file) = Some ''I study ml today and tomorrow''"
proof -
  let ?e = "ex_env ''A note. #ai'' ex_edit" and ?w = "ex_world ''I study ml today''"
  let ?r = "tagAndWrite ?e False ex_file ''I study ml today'' [''ml''] ?w"
  have h1: "vault ?w (path ex_file) = Some ''I study ml today''"
    by (simp add: ex_world_def ex_file_def)
  have h2: "vault (during ?e ?w) (path ex_file) = Some ''I study ml today and tomorrow''"
    by (simp add: ex_world_def ex_file_def ex_env_def ex_edit_def)
  have h3: "''I study ml today and tomorrow'' \<noteq> ''I study ml today''"
    by simp
  have r: "\<not> isl ?r"
    by code_simp
  then have eq: "?r = Inr (projr ?r)"
    by (cases ?r) simp_all
  from staleness_abort [OF h1 h2 h3, of False "[''ml'']"] eq
  have "untouched (during ?e ?w) (projr ?r)
        \<and> vault (projr ?r) (path ex_file) = Some ''I study ml today and tomorrow''"
    by blast
  with h1 h2 r show ?thesis by simp
qed

section \<open>Synthesis applied twice\<close>

text \<open>
  Claim C2 as stated fails when the service answers with a blank summary and a tag
  matches: the first application succeeds and returns the deterministic pass alone,
  which carries no marker, and the second application is not a no-op.
\<close>

theorem tagging_idempotence_counterexample:
  "processContentWithOllama ex_settings ''I study ml today'' [''ml''] ex_blank ''2024-05-01T10:00:00.000Z''
     = Inr ''#ml I study ml today''
   \<and> \<not> isAlreadyTagged ''#ml I study ml today''
   \<and> processContentWithOllama ex_settings ''#ml I study ml today'' [''ml''] ex_blank ''2024-05-01T10:00:00.000Z''
     = Inr ''#ml #ml I study ml today''
   \<and> ''#ml #ml I study ml today'' \<noteq> ''#ml I study ml today''"
  by code_simp


text \<open>
  Claim C2, amended. If the first application succeeds, then: its output carries the
  marker whenever the summary was not blank or the content was tagged already; an
  output that carries the marker is returned unchanged by a second application,
  whatever the second reply and timestamp; and when the summary was blank and no
  vocabulary tag matches the content, the output is the content itself and a second
  application whose summary is blank again returns it unchanged. Nothing is said about
  a blank summary with a matching tag.
\<close>

theorem tagging_idempotent_once_marked:
  assumes "processContentWithOllama st C V rep ts = Inr C'"
  shows "(nonBlankSummary rep \<or> isAlreadyTagged C \<longrightarrow> isAlreadyTagged C')
       \<and> (isAlreadyTagged C' \<longrightarrow> processContentWithOllama st C' V rep2 ts2 = Inr C')
       \<and> (blankSummary rep \<and> (\<forall>t \<in> set V. \<not> tagMatches C t)
            \<longrightarrow> C' = C
                \<and> (blankSummary rep2 \<longrightarrow> processContentWithOllama st C' V rep2 ts2 = Inr C'))"
proof -
  from assms have nm: "\<not> noModel st"
    by (auto simp: processContentWithOllama_def split: if_splits)
  have a: "isAlreadyTagged C'" if "nonBlankSummary rep \<or> isAlreadyTagged C"
  proof (cases "isAlreadyTagged C")
    case True
    with assms nm show ?thesis by (simp add: processContentWithOllama_def)
  next
    case False
    with that have "nonBlankSummary rep" by simp
    with assms nm False obtain P s where "C' = header ts @ s @ divider @ P"
      by (auto simp: processContentWithOllama_def nonBlankSummary_def responseTrimmed_stringResponse
               split: sum.splits reply.splits option.splits if_splits)
    then show ?thesis by (simp add: isAlreadyTagged_header)
  qed
  have b: "processContentWithOllama st C' V rep2 ts2 = Inr C'" if "isAlreadyTagged C'"
    using that nm by (simp add: processContentWithOllama_def)
  have c: "C' = C \<and> (blankSummary rep2 \<longrightarrow> processContentWithOllama st C' V rep2 ts2 = Inr C')"
    if bl: "blankSummary rep" and no: "\<forall>t \<in> set V. \<not> tagMatches C t"
  proof (cases "isAlreadyTagged C")
    case True
    with assms nm have "C' = C" by (simp add: processContentWithOllama_def)
    with True nm show ?thesis by (simp add: processContentWithOllama_def)
  next
    case False
    with assms nm obtain P where P: "addDeterministicTags C V = Inr P"
      by (auto simp: processContentWithOllama_def split: sum.splits)
    from no_match_unchanged [OF P no] have PC: "P = C" .
    from assms nm False P bl have "C' = P"
      by (auto simp: processContentWithOllama_def blankSummary_def responseTrimmed_stringResponse
               split: reply.splits option.splits if_splits)
    with PC have eq: "C' = C" by simp
    have "processContentWithOllama st C V rep2 ts2 = Inr C" if "blankSummary rep2"
      using that nm False P PC
      by (auto simp: processContentWithOllama_def blankSummary_def responseTrimmed_stringResponse
               split: reply.splits option.splits)
    with eq show ?thesis by simp
  qed
  from a b c show ?thesis by blast
qed

theorem tagging_idempotent_once_marked_witness:
  "processContentWithOllama ex_settings ''I study ml today'' [''ml'']
     (Body (JObj [(''response'', JStr ''A note. #ai'')])) ''2024-05-01T10:00:00.000Z''
     = Inr (header ''2024-05-01T10:00:00.000Z'' @ ''A note. #ai'' @ divider @ ''#ml I study ml today'')
   \<and> nonBlankSummary (Body (JObj [(''response'', JStr ''A note. #ai'')]))
   \<and> isAlreadyTagged
        (header ''2024-05-01T10:00:00.000Z'' @ ''A note. #ai'' @ divider @ ''#ml I study ml today'')
   \<and> processContentWithOllama ex_settings
        (header ''2024-05-01T10:00:00.000Z'' @ ''A note. #ai'' @ divider @ ''#ml I study ml today'')
        [''ml''] ex_blank ''2024-06-01T10:00:00.000Z''
     = Inr (header ''2024-05-01T10:00:00.000Z'' @ ''A note. #ai'' @ divider @ ''#ml I study ml today'')
   \<and> processContentWithOllama ex_settings ''plain words'' [''ml''] ex_blank
        ''2024-05-01T10:00:00.000Z'' = Inr ''plain words''
   \<and> blankSummary ex_blank \<and> \<not> tagMatches ''plain words'' ''ml''
   \<and> processContentWithOllama ex_settings ''plain words'' [''ml''] ex_blank
        ''2024-06-01T10:00:00.000Z'' = Inr ''plain words''"
proof -
  let ?rep = "Body (JObj [(''response'', JStr ''A note. #ai'')])"
  let ?out = "header ''2024-05-01T10:00:00.000Z'' @ ''A note. #ai'' @ divider @ ''#ml I study ml today''"
  have h: "processContentWithOllama ex_settings ''I study ml today'' [''ml''] ?rep
             ''2024-05-01T10:00:00.000Z'' = Inr ?out"
    by code_simp
  have n: "nonBlankSummary ?rep"
    by code_simp
  from tagging_idempotent_once_marked [OF h, of ex_blank "''2024-06-01T10:00:00.000Z''"] n
  have m: "isAlreadyTagged ?out"
    and s: "processContentWithOllama ex_settings ?out [''ml''] ex_blank ''2024-06-01T10:00:00.000Z'' = Inr ?out"
    by blast+
  have h': "processContentWithOllama ex_settings ''plain words'' [''ml''] ex_blank
              ''2024-05-01T10:00:00.000Z'' = Inr ''plain words''"
    by code_simp
  have bl: "blankSummary ex_blank"
    by code_simp
  have no: "\<forall>t \<in> set [''ml'']. \<not> tagMatches ''plain words'' t"
    by code_simp
  from tagging_idempotent_once_marked [OF h', of ex_blank "''2024-06-01T10:00:00.000Z''"] bl no
  have s': "processContentWithOllama ex_settings ''plain words'' [''ml''] ex_blank
              ''2024-06-01T10:00:00.000Z'' = Inr ''plain words''"
    by blast
  from no have no': "\<not> tagMatches ''plain words'' ''ml''" by simp
  from h n m s h' bl no' s' show ?thesis by simp
qed

section \<open>Tagging followed by untagging\<close>

text \<open>
  The round trip where the tag run, if there is one, stands at the very start of the
  output of the deterministic pass: the pass found no frontmatter block to place it
  behind, or no tag matches.
\<close>

lemma tag_then_untag:
  assumes "processContentWithOllama st C V rep ts = Inr out"
      and "\<not> isAlreadyTagged C"
      and "\<not> startsWithHashtag (dropWhile isWhiteSpace C)"
      and "frontMatterOf C = [] \<or> (\<forall>t \<in> set V. \<not> tagMatches C t)"
      and "nonBlankSummary rep \<or> \<not> isAlreadyTagged out"
  shows "sublist (trim C) (fst (untagContent out))
       \<and> (nonBlankSummary rep \<longrightarrow> snd (untagContent out))"
proof -
  define body where "body = dropWhile isWhiteSpace C"
  have idem: "dropWhile isWhiteSpace body = body" by (simp add: body_def)
  have nh: "\<not> startsWithHashtag body" using assms(3) by (simp add: body_def)
  have tr: "trim C = rev (dropWhile isWhiteSpace (rev body))" by (simp add: trim_def body_def)
  from assms(1,2) obtain P where det: "addDeterministicTags C V = Inr P"
    by (auto simp: processContentWithOllama_def split: if_splits sum.splits)
  from det_form [OF det assms(4)] obtain Pre where
    Pre: "P = Pre @ C" "Pre = [] \<or> isWhiteSpace (last Pre)" by blast
  show ?thesis
  proof (cases "nonBlankSummary rep")
    case True
    with assms(1,2) det obtain S where out: "out = header ts @ S @ divider @ P"
      by (auto simp: processContentWithOllama_def nonBlankSummary_def responseTrimmed_stringResponse
               split: if_splits sum.splits reply.splits option.splits)
    have tagged: "isAlreadyTagged out" unfolding out by (rule isAlreadyTagged_header)
    define c1 where "c1 = regex_replace False taggedSectionPattern [] out"
    from tagged_section_removed [of ts S P] obtain W0 where
      W0: "c1 = dropWhile isNewline (W0 @ ''\<newline>\<newline>'' @ P)" "length c1 < length out"
      unfolding c1_def out by blast
    define Y where "Y = W0 @ ''\<newline>\<newline>'' @ Pre"
    have "Y = [] \<or> isWhiteSpace (last Y)"
      using Pre(2) by (auto simp: Y_def isWhiteSpace_def)
    from keeps_prefixed [OF this, of C] obtain Y' where
      Y': "Y @ C = Y' @ body" "Y' = [] \<or> isWhiteSpace (last Y')"
      unfolding keeps_def body_def by blast
    have "Y @ C \<noteq> []" by (simp add: Y_def)
    have c1Y: "c1 = dropWhile isNewline (Y' @ body)"
      using W0(1) Y'(1) Pre(1) by (simp add: Y_def)
    have k1: "keeps body c1"
    proof (cases "Y' = []")
      case True
      have "dropWhile isNewline body = body"
      proof (cases body)
        case Nil then show ?thesis by simp
      next
        case (Cons b bs)
        with idem have "\<not> isWhiteSpace b" by (metis dropWhile_eq_self_iff list.sel(1) list.distinct(1))
        with isNewline_ws Cons show ?thesis by auto
      qed
      with True c1Y show ?thesis unfolding keeps_def by simp
    next
      case False
      with Y'(2) have "isWhiteSpace (last Y')" by simp
      from keeps_after_dropWhile [OF False this idem, of isNewline] isNewline_ws show ?thesis
        unfolding c1Y by blast
    qed
    have u: "untagContent out =
        (if regex_test False tagPattern c1 then (trim (regex_replace False tagPattern [] c1), True)
         else (c1, True))"
      using tagged W0(2) by (auto simp: untagContent_def Let_def c1_def)
    from untag_step2 [OF k1 nh idem] True show ?thesis unfolding u tr by (simp split: if_splits)
  next
    case False
    with assms(1,2) det have out: "out = P"
      by (auto simp: processContentWithOllama_def nonBlankSummary_def responseTrimmed_stringResponse
               split: if_splits sum.splits reply.splits option.splits)
    from False assms(5) have nt: "\<not> isAlreadyTagged out" by simp
    have k: "keeps body out" unfolding out Pre(1) body_def using keeps_prefixed [OF Pre(2)] .
    have u: "fst (untagContent out) =
        (if regex_test False tagPattern out then trim (regex_replace False tagPattern [] out) else out)"
      using nt by (simp add: untagContent_def)
    from untag_step2 [OF k nh idem] False show ?thesis unfolding u tr by (simp split: if_splits)
  qed
qed


text \<open>
  Claim C3 as stated fails for a content that ends with a line break: tagging places the
  matched tag in front of the content, untagging removes the tagged section and the
  leading hashtag and then trims what is left, and the line break at the end of the
  content is lost with it.
\<close>

theorem round_trip_counterexample:
  "\<not> isAlreadyTagged ''I study ml today\<newline>'' \<and> \<not> startsWithHashtag ''I study ml today\<newline>''
   \<and> leadingFrontMatter ''I study ml today\<newline>'' = None
   \<and> processContentWithOllama ex_settings ''I study ml today\<newline>'' [''ml''] ex_summary
        ''2024-05-01T10:00:00.000Z''
      = Inr (header ''2024-05-01T10:00:00.000Z'' @ ''A note. #ai'' @ divider
               @ ''#ml I study ml today\<newline>'')
   \<and> untagContent (header ''2024-05-01T10:00:00.000Z'' @ ''A note. #ai'' @ divider
               @ ''#ml I study ml today\<newline>'')
      = (''I study ml today'', True)
   \<and> \<not> sublist ''I study ml today\<newline>'' ''I study ml today''"
  unfolding includesStr_iff_sublist [symmetric] by code_simp


text \<open>
  Claim C3, amended. Let the content carry no marker, let its first text after leading
  white space not be a hashtag token, and let it have no leading frontmatter block or no
  matching tag. If synthesis succeeds, with a summary that is not blank or with an
  output that carries no marker, then untagging the output yields a content that
  contains the original, with the white space at its two ends removed, as a substring;
  and when the summary is not blank, untagging reports a modification. Nothing is said
  about a content with a frontmatter block and a matching tag.
\<close>

theorem round_trip:
  assumes "processContentWithOllama st C V rep ts = Inr out"
      and "\<not> isAlreadyTagged C"
      and "\<not> startsWithHashtag (dropWhile isWhiteSpace C)"
      and "leadingFrontMatter C = None \<or> (\<forall>t \<in> set V. \<not> tagMatches C t)"
      and "nonBlankSummary rep \<or> \<not> isAlreadyTagged out"
  shows "sublist (trim C) (fst (untagContent out))
       \<and> (nonBlankSummary rep \<longrightarrow> snd (untagContent out))"
proof -
  from assms(4) no_block_none_found [of C]
  have "frontMatterOf C = [] \<or> (\<forall>t \<in> set V. \<not> tagMatches C t)" by blast
  from tag_then_untag [OF assms(1,2,3) this assms(5)] show ?thesis .
qed

theorem round_trip_witness:
  "processContentWithOllama ex_settings ''  I study ml today\<newline>'' [''ml''] ex_summary
       ''2024-05-01T10:00:00.000Z''
     = Inr (header ''2024-05-01T10:00:00.000Z'' @ ''A note. #ai'' @ divider
              @ ''#ml   I study ml today\<newline>'')
   \<and> \<not> isAlreadyTagged ''  I study ml today\<newline>''
   \<and> \<not> startsWithHashtag (dropWhile isWhiteSpace ''  I study ml today\<newline>'')
   \<and> leadingFrontMatter ''  I study ml today\<newline>'' = None
   \<and> nonBlankSummary ex_summary
   \<and> trim ''  I study ml today\<newline>'' = ''I study ml today''
   \<and> sublist ''I study ml today''
        (fst (untagContent (header ''2024-05-01T10:00:00.000Z'' @ ''A note. #ai'' @ divider
              @ ''#ml   I study ml today\<newline>'')))
   \<and> snd (untagContent (header ''2024-05-01T10:00:00.000Z'' @ ''A note. #ai'' @ divider
              @ ''#ml   I study ml today\<newline>''))"
proof -
  let ?C = "''  I study ml today\<newline>''"
  let ?out = "header ''2024-05-01T10:00:00.000Z'' @ ''A note. #ai'' @ divider @ ''#ml   I study ml today\<newline>''"
  have h1: "processContentWithOllama ex_settings ?C [''ml''] ex_summary ''2024-05-01T10:00:00.000Z''
            = Inr ?out"
    by code_simp
  have h2: "\<not> isAlreadyTagged ?C" by code_simp
  have h3: "\<not> startsWithHashtag (dropWhile isWhiteSpace ?C)" by code_simp
  have h4: "leadingFrontMatter ?C = None" by code_simp
  have h5: "nonBlankSummary ex_summary" by code_simp
  have t: "trim ?C = ''I study ml today''" by code_simp
  from round_trip [OF h1 h2 h3 _ _] h4 h5
  have "sublist (trim ?C) (fst (untagContent ?out)) \<and> snd (untagContent ?out)"
    by blast
  with h1 h2 h3 h4 h5 t show ?thesis by simp
qed

text \<open>
  With a frontmatter block and a matching tag, the run is placed behind the block.
  Untagging looks for hashtags at the very start of the content only, although its
  comment speaks of the tags outside the frontmatter, and leaves the run where it is.
\<close>

lemma run_behind_frontmatter_stays:
  "processContentWithOllama ex_settings ex_frontmatter_note [''ml''] ex_summary
        ''2024-05-01T10:00:00.000Z''
      = Inr (header ''2024-05-01T10:00:00.000Z'' @ ''A note. #ai'' @ divider
               @ ''---\<newline>title: x\<newline>---\<newline>#ml I study ml'')
   \<and> untagContent (header ''2024-05-01T10:00:00.000Z'' @ ''A note. #ai'' @ divider
               @ ''---\<newline>title: x\<newline>---\<newline>#ml I study ml'')
      = (''---\<newline>title: x\<newline>---\<newline>#ml I study ml'', True)"
  by code_simp

section \<open>Replies without a usable summary\<close>

text \<open>
  A reply without a string summary never leads to a write: synthesis either throws, and
  the shared block reports the failure, or returns an already tagged content as it is.
\<close>

lemma noSummary_synthesis:
  assumes "noSummary rep" and "processContentWithOllama st A tags rep ts = Inr c"
  shows "c = A"
  using assms
  by (auto simp: processContentWithOllama_def noSummary_def responseTrimmed_stringResponse
           split: if_splits sum.splits reply.splits option.splits)

lemma noSummary_tagAndWrite:
  assumes "noSummary (reply e)" and "tagAndWrite e ann file A tags w = Inr w'"
  shows "untouched (during e w) w'"
  using tagAndWrite_outcomes [OF assms(2)] noSummary_synthesis [OF assms(1)] by blast

text \<open>
  Claim C4 as stated fails for a body without a \<^verbatim>\<open>response\<close> member: synthesis does not
  fall back to the deterministic pass, it throws.
\<close>

theorem malformed_reply_counterexample:
  "addDeterministicTags ''I study ml today'' [''ml''] = Inr ''#ml I study ml today''
   \<and> processContentWithOllama ex_settings ''I study ml today'' [''ml''] ex_error_body
        ''2024-05-01T10:00:00.000Z'' = Inl TypeError"
  by code_simp


text \<open>
  Claim C4, amended. With a model selected, an untagged content and tags that compile:
  a body with no string \<^verbatim>\<open>response\<close> member makes synthesis fail with a type error, a
  body that is not JSON and a failed request make it fail as well; in each of the three
  cases the shared block of the operations reports the failure and stops there, with no
  write and no change of the record, and so does each of the four operations that
  reaches the call. Synthesis returns the deterministic pass unchanged if and only if
  the reply carries a string \<^verbatim>\<open>response\<close> that is blank after trimming.
\<close>

theorem malformed_reply_fails:
  assumes "\<not> noModel st" and "\<not> isAlreadyTagged C" and "addDeterministicTags C V = Inr P"
  shows "(stringResponse data = None
            \<longrightarrow> processContentWithOllama st C V (Body data) ts = Inl TypeError)
       \<and> processContentWithOllama st C V NotJson ts = Inl SyntaxError
       \<and> processContentWithOllama st C V FetchFailed ts = Inl NetworkError
       \<and> (processContentWithOllama st C V rep ts = Inr P \<longleftrightarrow> blankSummary rep)
       \<and> (settings w = st \<and> noSummary (reply e)
            \<longrightarrow> tagAndWrite e ann file C V w = Inr (notify (Failed (basename file)) (during e w))
                \<and> untouched (during e w) (notify (Failed (basename file)) (during e w)))
       \<and> (noSummary (reply e)
            \<longrightarrow> (\<forall>w'. autoTagFile e file w = Inr w'
                      \<longrightarrow> untouched w w' \<or> untouched (during e w) w')
              \<and> (\<forall>w'. autoTagFileOnClose e file w = Inr w'
                      \<longrightarrow> untouched w w' \<or> untouched (during e w) w')
              \<and> (\<forall>w'. tagCurrentDocument e file V w = Inr w'
                      \<longrightarrow> untouched w w' \<or> untouched (during e w) w')
              \<and> (\<forall>w'. addTagsToDocuments [(file, e)] V w = Inr w'
                      \<longrightarrow> untouched w w' \<or> untouched (during e w) w'))"
proof -
  have c1: "stringResponse data = None
            \<longrightarrow> processContentWithOllama st C V (Body data) ts = Inl TypeError"
    using assms by (simp add: processContentWithOllama_def responseTrimmed_stringResponse)
  have c2: "processContentWithOllama st C V NotJson ts = Inl SyntaxError"
    using assms by (simp add: processContentWithOllama_def)
  have c3: "processContentWithOllama st C V FetchFailed ts = Inl NetworkError"
    using assms by (simp add: processContentWithOllama_def)
  have long: "header ts @ s @ divider @ P \<noteq> P" for s
  proof
    assume "header ts @ s @ divider @ P = P"
    then have "length (header ts @ s @ divider @ P) = length P" by simp
    then show False by (simp add: header_def)
  qed
  have c4: "processContentWithOllama st C V rep ts = Inr P \<longleftrightarrow> blankSummary rep"
    using assms long
    by (auto simp: processContentWithOllama_def blankSummary_def responseTrimmed_stringResponse
             split: reply.splits option.splits)
  have fails: "\<exists>err. err \<noteq> Unmodelled \<and> processContentWithOllama st C V r ts' = Inl err"
    if "noSummary r" for r ts'
    using that assms
    by (auto simp: processContentWithOllama_def noSummary_def responseTrimmed_stringResponse
             split: reply.splits option.splits)
  have c5: "settings w = st \<and> noSummary (reply e)
            \<longrightarrow> tagAndWrite e ann file C V w = Inr (notify (Failed (basename file)) (during e w))
                \<and> untouched (during e w) (notify (Failed (basename file)) (during e w))"
  proof (intro impI, elim conjE)
    assume s: "settings w = st" and n: "noSummary (reply e)"
    from fails [OF n, of "timestamp e"] obtain err where
      "err \<noteq> Unmodelled" "processContentWithOllama st C V (reply e) (timestamp e) = Inl err"
      by blast
    with s show "tagAndWrite e ann file C V w = Inr (notify (Failed (basename file)) (during e w))
        \<and> untouched (during e w) (notify (Failed (basename file)) (during e w))"
      by (simp add: tagAndWrite_def Let_def)
  qed
  have c6: "noSummary (reply e)
            \<longrightarrow> (\<forall>w'. autoTagFile e file w = Inr w'
                      \<longrightarrow> untouched w w' \<or> untouched (during e w) w')
              \<and> (\<forall>w'. autoTagFileOnClose e file w = Inr w'
                      \<longrightarrow> untouched w w' \<or> untouched (during e w) w')
              \<and> (\<forall>w'. tagCurrentDocument e file V w = Inr w'
                      \<longrightarrow> untouched w w' \<or> untouched (during e w) w')
              \<and> (\<forall>w'. addTagsToDocuments [(file, e)] V w = Inr w'
                      \<longrightarrow> untouched w w' \<or> untouched (during e w) w')"
  proof
    assume n: "noSummary (reply e)"
    have o1: "\<forall>w'. autoTagFile e file w = Inr w'
                \<longrightarrow> untouched w w' \<or> untouched (during e w) w'"
      using autoTagFile_outcomes noSummary_tagAndWrite [OF n] by blast
    have o2: "\<forall>w'. autoTagFileOnClose e file w = Inr w'
                \<longrightarrow> untouched w w' \<or> untouched (during e w) w'"
      using autoTagFileOnClose_outcomes noSummary_tagAndWrite [OF n] by blast
    have o3: "\<forall>w'. tagCurrentDocument e file V w = Inr w'
                \<longrightarrow> untouched w w' \<or> untouched (during e w) w'"
      using tagCurrentDocument_outcomes noSummary_tagAndWrite [OF n] by blast
    have o4: "\<forall>w'. addTagsToDocuments [(file, e)] V w = Inr w'
                \<longrightarrow> untouched w w' \<or> untouched (during e w) w'"
      using addTagsToDocuments_one_outcomes noSummary_tagAndWrite [OF n] by blast
    from o1 o2 o3 o4 show "(\<forall>w'. autoTagFile e file w = Inr w'
                      \<longrightarrow> untouched w w' \<or> untouched (during e w) w')
              \<and> (\<forall>w'. autoTagFileOnClose e file w = Inr w'
                      \<longrightarrow> untouched w w' \<or> untouched (during e w) w')
              \<and> (\<forall>w'. tagCurrentDocument e file V w = Inr w'
                      \<longrightarrow> untouched w w' \<or> untouched (during e w) w')
              \<and> (\<forall>w'. addTagsToDocuments [(file, e)] V w = Inr w'
                      \<longrightarrow> untouched w w' \<or> untouched (during e w) w')"
      by blast
  qed
  from c1 c2 c3 c4 c5 c6 show ?thesis by blast
qed

theorem malformed_reply_fails_witness:
  "\<not> noModel ex_settings \<and> \<not> isAlreadyTagged ''I study ml today''
   \<and> addDeterministicTags ''I study ml today'' [''ml''] = Inr ''#ml I study ml today''
   \<and> stringResponse (JObj [(''error'', JStr ''model not found'')]) = None
   \<and> processContentWithOllama ex_settings ''I study ml today'' [''ml'']
        (Body (JObj [(''error'', JStr ''model not found'')])) ''2024-05-01T10:00:00.000Z'' = Inl TypeError
   \<and> blankSummary ex_blank
   \<and> processContentWithOllama ex_settings ''I study ml today'' [''ml''] ex_blank
        ''2024-05-01T10:00:00.000Z'' = Inr ''#ml I study ml today''
   \<and> \<not> blankSummary ex_summary
   \<and> processContentWithOllama ex_settings ''I study ml today'' [''ml''] ex_summary
        ''2024-05-01T10:00:00.000Z'' \<noteq> Inr ''#ml I study ml today''
   \<and> settings (ex_world ''I study ml today'') = ex_settings
   \<and> noSummary (reply ((ex_env [] id)\<lparr>reply := NotJson\<rparr>))
   \<and> tagAndWrite ((ex_env [] id)\<lparr>reply := NotJson\<rparr>) True ex_file ''I study ml today'' [''ml'']
        (ex_world ''I study ml today'')
       = Inr (notify (Failed ''a'') (ex_world ''I study ml today''))
   \<and> \<not> isl (tagCurrentDocument ((ex_env [] id)\<lparr>reply := NotJson\<rparr>) ex_file [''ml'']
               (ex_world ''I study ml today''))
   \<and> untouched (ex_world ''I study ml today'')
        (projr (tagCurrentDocument ((ex_env [] id)\<lparr>reply := NotJson\<rparr>) ex_file [''ml'']
                  (ex_world ''I study ml today'')))"
proof -
  let ?e = "(ex_env [] id)\<lparr>reply := NotJson\<rparr>" and ?w = "ex_world ''I study ml today''"
  let ?r = "tagCurrentDocument ?e ex_file [''ml''] ?w"
  let ?ts = "''2024-05-01T10:00:00.000Z''"
  have h1: "\<not> noModel ex_settings" by code_simp
  have h2: "\<not> isAlreadyTagged ''I study ml today''" by code_simp
  have h3: "addDeterministicTags ''I study ml today'' [''ml''] = Inr ''#ml I study ml today''"
    by code_simp
  have s1: "stringResponse (JObj [(''error'', JStr ''model not found'')]) = None" by code_simp
  have s2: "blankSummary ex_blank" by code_simp
  have s3: "\<not> blankSummary ex_summary" by code_simp
  have s4: "settings ?w = ex_settings" by (simp add: ex_world_def)
  have s5: "noSummary (reply ?e)" by (simp add: noSummary_def)
  have d: "during ?e ?w = ?w" by (simp add: ex_env_def)
  have b: "basename ex_file = ''a''" by (simp add: ex_file_def)
  have r: "\<not> isl ?r" by code_simp
  then have eq: "?r = Inr (projr ?r)" by (cases ?r) simp_all
  note th = malformed_reply_fails [OF h1 h2 h3]
  from th [of "JObj [(''error'', JStr ''model not found'')]" ?ts] s1
  have a1: "processContentWithOllama ex_settings ''I study ml today'' [''ml'']
        (Body (JObj [(''error'', JStr ''model not found'')])) ?ts = Inl TypeError"
    by blast
  from th [of _ ?ts ex_blank] s2
  have a2: "processContentWithOllama ex_settings ''I study ml today'' [''ml''] ex_blank ?ts
            = Inr ''#ml I study ml today''"
    by blast
  from th [of _ ?ts ex_summary] s3
  have a3: "processContentWithOllama ex_settings ''I study ml today'' [''ml''] ex_summary ?ts
            \<noteq> Inr ''#ml I study ml today''"
    by blast
  from th [of _ _ _ ?w ?e True ex_file] s4 s5
  have a4: "tagAndWrite ?e True ex_file ''I study ml today'' [''ml''] ?w
            = Inr (notify (Failed (basename ex_file)) (during ?e ?w))"
    by blast
  from th [of _ _ _ ?w ?e _ ex_file] s5 eq
  have a5: "untouched ?w (projr ?r) \<or> untouched (during ?e ?w) (projr ?r)"
    by blast
  from h1 h2 h3 s1 s2 s3 s4 s5 a1 a2 a3 a4 a5 d b r show ?thesis by simp
qed


section \<open>Exclusion patterns\<close>







lemma globSource_lower: "globSource (toLowerCase p) = globSource p"
  by (simp add: globSource_def)

lemma patternExcludes_lower:
  "patternExcludes p f =
   patternExcludes (toLowerCase p)
     (f\<lparr>path := toLowerCase (path f), basename := toLowerCase (basename f)\<rparr>)"
  by (simp add: patternExcludes_def Let_def globSource_lower star_in_toLowerCase)










section \<open>Insertion of the deterministic tags\<close>

lemma prefix_hash_hashed: "prefix ''#'' (hashed t)"
  by (simp add: hashed_def startsWith_def)

lemma oneLeadingHash_hashed: "oneLeadingHash (hashed t) \<longleftrightarrow> \<not> prefix ''##'' t"
  by (cases t) (auto simp: oneLeadingHash_def hashed_def startsWith_def)

text \<open>Where the pass places the run, in terms of the block its pattern finds.\<close>

lemma insertion_place:
  assumes "addDeterministicTags content V = Inr r"
  shows "\<exists>added. distinct added
           \<and> set added = hashed ` {t \<in> set V. tagMatches content t}
           \<and> (added = [] \<longrightarrow> r = content)
           \<and> (added \<noteq> [] \<longrightarrow>
                r = frontMatterOf content @ join '' '' added @ '' ''
                      @ drop (length (frontMatterOf content)) content)"
proof -
  from assms obtain added where c: "collectTags (toLowerCase content) V [] = Inr added"
    by (auto simp: addDeterministicTags_def split: sum.splits)
  from collectTags_result [OF c] have s: "set added = hashed ` {t \<in> set V. tagMatches content t}"
    and d: "distinct added" by simp_all
  have e: "added = [] \<longrightarrow> r = content"
    using assms c by (auto simp: addDeterministicTags_def)
  have n: "added \<noteq> [] \<longrightarrow>
        r = frontMatterOf content @ join '' '' added @ '' ''
              @ drop (length (frontMatterOf content)) content"
    using assms c by (auto simp: addDeterministicTags_def frontMatter_exec split: if_splits)
  from d s e n show ?thesis by blast
qed

text \<open>
  Claim C6 as stated fails for a vocabulary tag written with two leading \<^verbatim>\<open>#\<close>: the tag
  is inserted as it is, with both.
\<close>

theorem deterministic_insertion_counterexample:
  "addDeterministicTags ''a#x'' [''##x''] = Inr ''##x a#x''
   \<and> tagMatches ''a#x'' ''##x'' \<and> hashed ''##x'' = ''##x'' \<and> \<not> oneLeadingHash ''##x''"
  by code_simp

text \<open>
  Claim C6, amended. Whenever the pass returns a result, the inserted run lists every
  matched tag exactly once; a tag without a leading \<^verbatim>\<open>#\<close> is given one and a tag that
  has one already is kept as written, so the inserted tag has exactly one leading \<^verbatim>\<open>#\<close>
  unless the vocabulary tag has two or more. The run, joined by single spaces and
  followed by one space, is placed at the very start when the content has no leading
  frontmatter block, and right after the block when the content has one with at least
  one line between its opening and its closing line and a line break after the closing
  line; with no matched tag the content is returned unchanged. Nothing is said about an
  empty block or a block that closes at the end of the content.
\<close>

theorem deterministic_insertion:
  assumes "addDeterministicTags content V = Inr r"
  shows "\<exists>added. distinct added
           \<and> set added = hashed ` {t \<in> set V. tagMatches content t}
           \<and> (\<forall>a \<in> set added. prefix ''#'' a)
           \<and> (\<forall>t \<in> set V. \<not> prefix ''##'' t \<longrightarrow> oneLeadingHash (hashed t))
           \<and> (added = [] \<longrightarrow> r = content)
           \<and> (added \<noteq> [] \<longrightarrow>
                (leadingFrontMatter content = None
                   \<longrightarrow> r = join '' '' added @ '' '' @ content)
              \<and> (\<forall>fm. leadingFrontMatter content = Some fm
                       \<and> 8 < length fm \<and> last fm = CHR ''\<newline>''
                   \<longrightarrow> r = fm @ join '' '' added @ '' '' @ drop (length fm) content))"
proof -
  from insertion_place [OF assms] obtain added where
    d: "distinct added" and s: "set added = hashed ` {t \<in> set V. tagMatches content t}"
    and e: "added = [] \<longrightarrow> r = content"
    and n: "added \<noteq> [] \<longrightarrow>
        r = frontMatterOf content @ join '' '' added @ '' ''
              @ drop (length (frontMatterOf content)) content"
    by blast
  from s have h: "\<forall>a \<in> set added. prefix ''#'' a" using prefix_hash_hashed by auto
  have o: "\<forall>t \<in> set V. \<not> prefix ''##'' t \<longrightarrow> oneLeadingHash (hashed t)"
    by (simp add: oneLeadingHash_hashed)
  have n1: "leadingFrontMatter content = None \<longrightarrow> r = join '' '' added @ '' '' @ content"
    if "added \<noteq> []"
  proof
    assume "leadingFrontMatter content = None"
    from no_block_none_found [OF this] n that show "r = join '' '' added @ '' '' @ content"
      by simp
  qed
  have n2: "\<forall>fm. leadingFrontMatter content = Some fm \<and> 8 < length fm \<and> last fm = CHR ''\<newline>''
            \<longrightarrow> r = fm @ join '' '' added @ '' '' @ drop (length fm) content"
    if "added \<noteq> []"
  proof (intro allI impI, elim conjE)
    fix fm
    assume "leadingFrontMatter content = Some fm" "8 < length fm" "last fm = CHR ''\<newline>''"
    from closed_block_found [OF this] have "frontMatterOf content = fm" .
    with n that show "r = fm @ join '' '' added @ '' '' @ drop (length fm) content"
      by simp
  qed
  have n3: "added \<noteq> [] \<longrightarrow>
                (leadingFrontMatter content = None
                   \<longrightarrow> r = join '' '' added @ '' '' @ content)
              \<and> (\<forall>fm. leadingFrontMatter content = Some fm
                       \<and> 8 < length fm \<and> last fm = CHR ''\<newline>''
                   \<longrightarrow> r = fm @ join '' '' added @ '' '' @ drop (length fm) content)"
  proof (intro impI conjI)
    assume a: "added \<noteq> []"
    from n1 [OF a] show "leadingFrontMatter content = None
        \<Longrightarrow> r = join '' '' added @ '' '' @ content" by (rule mp)
    from n2 [OF a] show "\<forall>fm. leadingFrontMatter content = Some fm
                       \<and> 8 < length fm \<and> last fm = CHR ''\<newline>''
                   \<longrightarrow> r = fm @ join '' '' added @ '' '' @ drop (length fm) content" .
  qed
  show ?thesis
  proof (intro exI [of _ added] conjI)
    show "distinct added" by (rule d)
    show "set added = hashed ` {t \<in> set V. tagMatches content t}" by (rule s)
    show "\<forall>a \<in> set added. prefix ''#'' a" by (rule h)
    show "\<forall>t \<in> set V. \<not> prefix ''##'' t \<longrightarrow> oneLeadingHash (hashed t)" by (rule o)
    show "added = [] \<longrightarrow> r = content" by (rule e)
    show "added \<noteq> [] \<longrightarrow>
                (leadingFrontMatter content = None
                   \<longrightarrow> r = join '' '' added @ '' '' @ content)
              \<and> (\<forall>fm. leadingFrontMatter content = Some fm
                       \<and> 8 < length fm \<and> last fm = CHR ''\<newline>''
                   \<longrightarrow> r = fm @ join '' '' added @ '' '' @ drop (length fm) content)"
      by (rule n3)
  qed
qed

theorem deterministic_insertion_witness:
  "addDeterministicTags ''---\<newline>title: x\<newline>---\<newline>I study ml'' [''ml'', ''#ML'', ''#ml'', ''ai'']
     = Inr ''---\<newline>title: x\<newline>---\<newline>#ml #ML I study ml''
   \<and> leadingFrontMatter ''---\<newline>title: x\<newline>---\<newline>I study ml'' = Some ''---\<newline>title: x\<newline>---\<newline>''
   \<and> 8 < length ''---\<newline>title: x\<newline>---\<newline>'' \<and> last ''---\<newline>title: x\<newline>---\<newline>'' = CHR ''\<newline>''
   \<and> \<not> prefix ''##'' ''ml'' \<and> oneLeadingHash (hashed ''ml'')
   \<and> \<not> prefix ''##'' ''#ML'' \<and> oneLeadingHash (hashed ''#ML'')
   \<and> (\<exists>added. distinct added
          \<and> set added = hashed ` {t \<in> set [''ml'', ''#ML'', ''#ml'', ''ai''].
                                   tagMatches ''---\<newline>title: x\<newline>---\<newline>I study ml'' t}
          \<and> added \<noteq> []
          \<and> ''---\<newline>title: x\<newline>---\<newline>#ml #ML I study ml''
                 = ''---\<newline>title: x\<newline>---\<newline>'' @ join '' '' added @ '' '' @ ''I study ml'')
   \<and> addDeterministicTags ''I study ml'' [''ml''] = Inr ''#ml I study ml''
   \<and> leadingFrontMatter ''I study ml'' = None
   \<and> (\<exists>added. set added = hashed ` {t \<in> set [''ml'']. tagMatches ''I study ml'' t}
          \<and> added \<noteq> []
          \<and> ''#ml I study ml'' = join '' '' added @ '' '' @ ''I study ml'')
   \<and> (\<exists>added. set added = hashed ` {t \<in> set [''ml'']. tagMatches ''plain words'' t}
          \<and> added = [])
   \<and> addDeterministicTags ''plain words'' [''ml''] = Inr ''plain words''"
proof -
  let ?C = "''---\<newline>title: x\<newline>---\<newline>I study ml''"
  let ?V = "[''ml'', ''#ML'', ''#ml'', ''ai'']"
  let ?fm = "''---\<newline>title: x\<newline>---\<newline>''"
  let ?r = "''---\<newline>title: x\<newline>---\<newline>#ml #ML I study ml''"
  have h: "addDeterministicTags ?C ?V = Inr ?r"
    by code_simp
  have f: "leadingFrontMatter ?C = Some ?fm"
    by code_simp
  have g: "8 < length ?fm" "last ?fm = CHR ''\<newline>''"
    by simp_all
  have v: "\<not> prefix ''##'' ''ml''" "\<not> prefix ''##'' ''#ML''"
    by simp_all
  have dr: "drop (length ?fm) ?C = ''I study ml''"
    by simp
  have tm: "tagMatches ?C ''ml''"
    by code_simp
  from deterministic_insertion [OF h] obtain added where
    a: "distinct added" "set added = hashed ` {t \<in> set ?V. tagMatches ?C t}"
       "\<forall>t \<in> set ?V. \<not> prefix ''##'' t \<longrightarrow> oneLeadingHash (hashed t)"
       "added \<noteq> [] \<longrightarrow>
          (\<forall>fm. leadingFrontMatter ?C = Some fm \<and> 8 < length fm \<and> last fm = CHR ''\<newline>''
              \<longrightarrow> ?r = fm @ join '' '' added @ '' '' @ drop (length fm) ?C)"
    by blast
  from a(3) v have o: "oneLeadingHash (hashed ''ml'')" "oneLeadingHash (hashed ''#ML'')"
    by simp_all
  from a(2) tm have "hashed ''ml'' \<in> set added" by simp
  then have ne: "added \<noteq> []" by auto
  with a(4) have "\<forall>fm. leadingFrontMatter ?C = Some fm \<and> 8 < length fm \<and> last fm = CHR ''\<newline>''
              \<longrightarrow> ?r = fm @ join '' '' added @ '' '' @ drop (length fm) ?C"
    by (rule mp)
  then have "leadingFrontMatter ?C = Some ?fm \<and> 8 < length ?fm \<and> last ?fm = CHR ''\<newline>''
              \<longrightarrow> ?r = ?fm @ join '' '' added @ '' '' @ drop (length ?fm) ?C"
    by (rule spec)
  with f g have "?r = ?fm @ join '' '' added @ '' '' @ drop (length ?fm) ?C"
    by (simp only: simp_thms)
  with dr have a4: "?r = ?fm @ join '' '' added @ '' '' @ ''I study ml''"
    by (simp only:)
  from a(1,2) ne a4 have first: "\<exists>added. distinct added
          \<and> set added = hashed ` {t \<in> set ?V. tagMatches ?C t}
          \<and> added \<noteq> []
          \<and> ?r = ?fm @ join '' '' added @ '' '' @ ''I study ml''"
    by (intro exI [of _ added] conjI)
  have h2: "addDeterministicTags ''I study ml'' [''ml''] = Inr ''#ml I study ml''"
    by code_simp
  have f2: "leadingFrontMatter ''I study ml'' = None"
    by code_simp
  have tm2: "tagMatches ''I study ml'' ''ml''"
    by code_simp
  from deterministic_insertion [OF h2] obtain added2 where
    b: "set added2 = hashed ` {t \<in> set [''ml'']. tagMatches ''I study ml'' t}"
       "added2 \<noteq> [] \<longrightarrow>
          (leadingFrontMatter ''I study ml'' = None
             \<longrightarrow> ''#ml I study ml'' = join '' '' added2 @ '' '' @ ''I study ml'')
          \<and> (\<forall>fm. leadingFrontMatter ''I study ml'' = Some fm
                   \<and> 8 < length fm \<and> last fm = CHR ''\<newline>''
                 \<longrightarrow> ''#ml I study ml''
                       = fm @ join '' '' added2 @ '' '' @ drop (length fm) ''I study ml'')"
    by (elim exE conjE)
  from b(1) tm2 have "hashed ''ml'' \<in> set added2" by simp
  then have ne2: "added2 \<noteq> []" by auto
  with b(2) have "leadingFrontMatter ''I study ml'' = None
             \<longrightarrow> ''#ml I study ml'' = join '' '' added2 @ '' '' @ ''I study ml''"
    by (rule mp [THEN conjunct1])
  from this f2 have "''#ml I study ml'' = join '' '' added2 @ '' '' @ ''I study ml''"
    by (rule mp)
  with b(1) ne2 have second: "\<exists>added. set added = hashed ` {t \<in> set [''ml'']. tagMatches ''I study ml'' t}
          \<and> added \<noteq> []
          \<and> ''#ml I study ml'' = join '' '' added @ '' '' @ ''I study ml''"
    by (intro exI [of _ added2] conjI)
  have h3: "addDeterministicTags ''plain words'' [''ml''] = Inr ''plain words''"
    by code_simp
  have tm3: "\<not> tagMatches ''plain words'' ''ml''"
    by code_simp
  from deterministic_insertion [OF h3] obtain added3 where
    c: "set added3 = hashed ` {t \<in> set [''ml'']. tagMatches ''plain words'' t}"
    by (elim exE conjE)
  moreover from tm3 have "{t \<in> set [''ml'']. tagMatches ''plain words'' t} = {}" by auto
  ultimately have "set added3 = {}" by (simp only: image_empty)
  then have "added3 = []" by simp
  with c have third: "\<exists>added. set added = hashed ` {t \<in> set [''ml'']. tagMatches ''plain words'' t}
          \<and> added = []"
    by (intro exI [of _ added3] conjI)
  from h f g v o first h2 f2 second third h3 show ?thesis
    by (intro conjI)
qed

text \<open>
  An empty block, the closing line directly under the opening one, and a block that
  closes at the end of the content are not found by the pattern of the pass: the run
  is placed in front of the block, although the comment in the code says after any
  existing frontmatter.
\<close>

lemma run_before_unrecognised_block:
  "leadingFrontMatter ex_empty_frontmatter = Some ''---\<newline>---\<newline>''
   \<and> addDeterministicTags ex_empty_frontmatter [''ml''] = Inr (''#ml '' @ ex_empty_frontmatter)
   \<and> leadingFrontMatter ''---\<newline>topic: ml\<newline>---'' = Some ''---\<newline>topic: ml\<newline>---''
   \<and> addDeterministicTags ''---\<newline>topic: ml\<newline>---'' [''ml'']
       = Inr ''#ml ---\<newline>topic: ml\<newline>---''"
  by code_simp


section \<open>Whole-word matching of the deterministic pass\<close>

text \<open>
  For a tag whose cleaned form consists of word characters only, the pattern built from
  it reads the tag literally between two word boundaries, and the test of the
  deterministic pass is the whole-word occurrence of the cleaned tag in the lower-cased
  content.
\<close>

lemma concat_map_REps: "concat (map (ends ic REps) xs) = xs"
  by (induction xs) simp_all

lemma ends_seqs_Cons:
  "ends ic (seqs (r # rs)) st = concat (map (ends ic (seqs rs)) (ends ic r st))"
  by (cases rs) (simp_all add: concat_map_REps del: ends.simps(1))

lemma word_not_special:
  assumes "isWordChar c"
  shows "c \<noteq> bslash" "c \<notin> set ''|^$.*+?()[{''"
proof -
  have "\<not> isWordChar bslash" by (simp add: isWordChar_def bslash_def)
  with assms show "c \<noteq> bslash" by auto
  have "\<forall>x \<in> set ''|^$.*+?()[{''. \<not> isWordChar x" by (simp add: isWordChar_def)
  with assms show "c \<notin> set ''|^$.*+?()[{''" by blast
qed

lemma parse_plain_word:
  assumes "isWordChar c"
  shows "parse_plain ps c = push_atom (RChr c) ps"
proof -
  from word_not_special [OF assms] have "c \<noteq> bslash" "c \<noteq> CHR ''|''" "c \<noteq> CHR ''^''"
    "c \<noteq> CHR ''$''" "c \<noteq> CHR ''.''" "c \<noteq> CHR ''*''" "c \<noteq> CHR ''+''" "c \<noteq> CHR ''?''"
    "c \<notin> set ''()[{''" by auto
  then show ?thesis by (simp add: parse_plain_def)
qed

lemma parse_word:
  assumes "\<forall>c \<in> set w. isWordChar c" and "\<not> esc ps" and "w \<noteq> []"
  shows "parse ps (w @ rest) =
         parse (ps\<lparr>terms := rev (map RChr w) @ terms ps, quant := QAtom, esc := False\<rparr>) rest"
  using assms
proof (induction w arbitrary: ps)
  case Nil
  then show ?case by simp
next
  case (Cons c cs)
  from Cons.prems have c: "isWordChar c" by simp
  let ?ps = "ps\<lparr>terms := RChr c # terms ps, quant := QAtom, esc := False\<rparr>"
  have step: "parse ps ((c # cs) @ rest) = parse ?ps (cs @ rest)"
    using Cons.prems(2) by (simp add: parse_char_def parse_plain_word [OF c] push_atom_def)
  show ?case
  proof (cases "cs = []")
    case True
    with step show ?thesis by simp
  next
    case False
    from Cons.prems have "\<forall>c \<in> set cs. isWordChar c" by simp
    from Cons.IH [OF this _ False, of ?ps] step show ?thesis by simp
  qed
qed

lemma compile_word_tag:
  assumes "\<forall>c \<in> set w. isWordChar c"
  shows "compile ([bslash, CHR ''b''] @ w @ [bslash, CHR ''b'']) =
         Inr (seqs (RWordB # map RChr w @ [RWordB]))"
proof -
  let ?ps0 = "\<lparr>alts_done = [], terms = [], quant = QNone, esc = False\<rparr>"
  let ?ps1 = "\<lparr>alts_done = [], terms = [RWordB], quant = QNone, esc = False\<rparr>"
  have bb: "bslash \<noteq> CHR ''b''" by (simp add: bslash_def)
  have start: "parse ?ps0 ([bslash, CHR ''b''] @ r) = parse ?ps1 r" for r
    by (simp add: parse_char_def parse_plain_def parse_escape_def push_assertion_def)
  have fin: "parse (ps\<lparr>esc := False\<rparr>) [bslash, CHR ''b'']
        = Inr (alts (rev (seqs (rev (RWordB # terms ps)) # alts_done ps)))" for ps
    by (simp add: parse_char_def parse_plain_def parse_escape_def push_assertion_def)
  show ?thesis
  proof (cases "w = []")
    case True
    have "?ps1 = ?ps1\<lparr>esc := False\<rparr>" by simp
    then have "parse ?ps1 [bslash, CHR ''b''] = Inr (alts (rev (seqs (rev (RWordB # terms ?ps1)) # alts_done ?ps1)))"
      using fin [of ?ps1] by simp
    with True start [of "[bslash, CHR ''b'']"] show ?thesis by (simp add: compile_def)
  next
    case False
    let ?ps2 = "?ps1\<lparr>terms := rev (map RChr w) @ terms ?ps1, quant := QAtom, esc := False\<rparr>"
    from parse_word [OF assms _ False, of ?ps1 "[bslash, CHR ''b'']"]
    have "parse ?ps1 (w @ [bslash, CHR ''b'']) = parse ?ps2 [bslash, CHR ''b'']" by simp
    also have "\<dots> = Inr (alts (rev (seqs (rev (RWordB # terms ?ps2)) # alts_done ?ps2)))"
      using fin [of "?ps1\<lparr>terms := rev (map RChr w) @ terms ?ps1, quant := QAtom\<rparr>"] by simp
    finally show ?thesis using start [of "w @ [bslash, CHR ''b'']"] by (simp add: compile_def)
  qed
qed

lemma lower_fixed: "\<forall>c \<in> set (toLowerCase s). lowerChar c = c"
  by (simp add: toLowerCase_def)

lemma ends_word_chars:
  assumes "\<forall>c \<in> set w. lowerChar c = c" and "\<forall>c \<in> set t. lowerChar c = c"
  shows "ends True (seqs (map RChr w @ [r])) (p, t) =
         (if prefix w t then ends True r (prevOf p w, drop (length w) t) else [])"
  using assms
proof (induction w arbitrary: p t)
  case Nil
  then show ?case by simp
next
  case (Cons c cs)
  have unfold: "ends True (seqs (map RChr (c # cs) @ [r])) (p, t) =
        concat (map (ends True (seqs (map RChr cs @ [r]))) (step1 (eqChar True c) (p, t)))"
    using ends_seqs_Cons [of True "RChr c" "map RChr cs @ [r]" "(p, t)"] by simp
  show ?case
  proof (cases t)
    case Nil
    with unfold show ?thesis by simp
  next
    case (Cons x xs)
    from Cons.prems(1) have c: "lowerChar c = c" by simp
    from Cons.prems(2) Cons have x: "lowerChar x = x" by simp
    from c x have eq: "eqChar True c x \<longleftrightarrow> c = x" by (simp add: eqChar_def)
    from Cons.prems Cons have p: "\<forall>c \<in> set cs. lowerChar c = c" "\<forall>c \<in> set xs. lowerChar c = c"
      by simp_all
    from Cons.IH [OF p, of "Some x"] unfold Cons eq show ?thesis by auto
  qed
qed

lemma tag_rx_ends:
  assumes "\<forall>c \<in> set w. lowerChar c = c" and "\<forall>c \<in> set t. lowerChar c = c"
  shows "ends True (seqs (RWordB # map RChr w @ [RWordB])) (p, t) \<noteq> [] \<longleftrightarrow> wholeWordAt p w t"
proof -
  have "ends True (seqs (RWordB # map RChr w @ [RWordB])) (p, t) =
        (if atBoundary (p, t) then ends True (seqs (map RChr w @ [RWordB])) (p, t) else [])"
    using ends_seqs_Cons [of True RWordB "map RChr w @ [RWordB]" "(p, t)"] by simp
  then show ?thesis
    unfolding ends_word_chars [OF assms] by (auto simp: wholeWordAt_def)
qed

lemma exec_at_Nil_iff: "exec_at ic r p [] \<noteq> None \<longleftrightarrow> ends ic r (p, []) \<noteq> []"
  by (cases "ends ic r (p, [])") simp_all

lemma exec_at_Cons_iff:
  "exec_at ic r p (x # xs) \<noteq> None \<longleftrightarrow>
     ends ic r (p, x # xs) \<noteq> [] \<or> exec_at ic r (Some x) xs \<noteq> None"
  by (cases "ends ic r (p, x # xs)") simp_all

lemma exec_at_occurs:
  assumes "\<forall>c \<in> set w. lowerChar c = c"
  shows "\<forall>c \<in> set t. lowerChar c = c \<Longrightarrow>
     exec_at True (seqs (RWordB # map RChr w @ [RWordB])) p t \<noteq> None \<longleftrightarrow> occursFrom p w t"
proof (induction t arbitrary: p)
  case Nil
  from tag_rx_ends [OF assms, of "[]" p] show ?case unfolding exec_at_Nil_iff by simp
next
  case (Cons x xs)
  from Cons.prems have xs: "\<forall>c \<in> set xs. lowerChar c = c" by simp
  from tag_rx_ends [OF assms Cons.prems, of p] Cons.IH [OF xs, of "Some x"]
  show ?case unfolding exec_at_Cons_iff by simp
qed

lemma word_tag_matches:
  assumes "\<forall>c \<in> set (cleanTag tag). isWordChar c"
  shows "tagMatches content tag \<longleftrightarrow> occursAsWholeWord (cleanTag tag) (toLowerCase content)"
proof -
  have w: "\<forall>c \<in> set (cleanTag tag). lowerChar c = c"
    unfolding cleanTag_def by (rule lower_fixed)
  have "tagRegex tag = Inr (seqs (RWordB # map RChr (cleanTag tag) @ [RWordB]))"
    unfolding tagRegex_def by (rule compile_word_tag [OF assms])
  then have "tagMatches content tag \<longleftrightarrow>
      exec_at True (seqs (RWordB # map RChr (cleanTag tag) @ [RWordB])) None (toLowerCase content) \<noteq> None"
    by (simp add: tagMatches_def regex_test_def regex_exec_def)
  also have "\<dots> \<longleftrightarrow> occursFrom None (cleanTag tag) (toLowerCase content)"
    using exec_at_occurs [OF w lower_fixed] .
  finally show ?thesis by (simp add: occursAsWholeWord_def)
qed

text \<open>
  Claim C7 (whole-word matching). The tag is pasted into the pattern as it is, so a tag
  with a character that the pattern syntax gives a meaning is not read literally. The
  tag \<^verbatim>\<open>3.5\<close> matches the content \<^verbatim>\<open>chapter 325 begins\<close>, in which it does not occur, and
  the tag \<^verbatim>\<open>c++\<close> makes the pass fail with a syntax error. The two examples of the claim
  hold: \<^verbatim>\<open>ml\<close> matches \<^verbatim>\<open>I study ml today\<close> and not \<^verbatim>\<open>I study html today\<close>.
\<close>

theorem whole_word_divergence:
  "addDeterministicTags ''chapter 325 begins'' [''3.5''] = Inr ''#3.5 chapter 325 begins''
   \<and> \<not> occursAsWholeWord (cleanTag ''3.5'') (toLowerCase ''chapter 325 begins'')
   \<and> addDeterministicTags ''I like c++'' [''c++''] = Inl SyntaxError
   \<and> addDeterministicTags ''I study ml today'' [''ml''] = Inr ''#ml I study ml today''
   \<and> occursAsWholeWord (cleanTag ''ml'') (toLowerCase ''I study ml today'')
   \<and> addDeterministicTags ''I study html today'' [''ml''] = Inr ''I study html today''
   \<and> \<not> occursAsWholeWord (cleanTag ''ml'') (toLowerCase ''I study html today'')"
  by code_simp

section \<open>Eligibility: the modification-time test\<close>

text \<open>
  The tagging record is written in one place only, next to the write of the document,
  and the value written is the reading of the clock at that moment. After the shared
  block every entry of the record is one that was there before, or that reading.
\<close>

lemma recorded_timestamps:
  assumes "tagAndWrite e ann file A tags w = Inr w'"
      and "taggedFiles (settings w') p = Some T"
  shows "taggedFiles (settings (during e w)) p = Some T \<or> T = now e"
  using tagAndWrite_outcomes [OF assms(1)] assms(2)
  by (auto simp: untouched_def written_def split: if_splits)

text \<open>
  Claim C8 (eligibility dedup). For a document that no pattern excludes: it is processed
  when it has no record entry; with an entry \<open>T\<close>, the reading of the clock at its last
  tagging (milliseconds since the epoch, a positive number), it is processed if and only
  if its modification time is strictly greater than \<open>T\<close>. So a document tagged at \<open>T\<close> and
  last modified at or before \<open>T\<close> is skipped, and one modified after \<open>T\<close> is processed
  again.
\<close>

theorem eligibility_dedup:
  assumes "excluded (excludePatterns st) file = Inr False"
  shows "(taggedFiles st (path file) = None \<longrightarrow> shouldProcessFile st file = Inr True)
       \<and> (\<forall>T. taggedFiles st (path file) = Some T \<and> 0 < T
              \<longrightarrow> shouldProcessFile st file = Inr (T < mtime file)
                  \<and> (mtime file \<le> T \<longrightarrow> shouldProcessFile st file = Inr False)
                  \<and> (T < mtime file \<longrightarrow> shouldProcessFile st file = Inr True))"
  using assms by (simp add: shouldProcessFile_def)

theorem eligibility_dedup_witness:
  "excluded (excludePatterns (ex_settings\<lparr>taggedFiles := [''notes/a.md'' \<mapsto> 7]\<rparr>)) ex_file = Inr False
   \<and> taggedFiles (ex_settings\<lparr>taggedFiles := [''notes/a.md'' \<mapsto> 7]\<rparr>) (path ex_file) = Some 7
   \<and> (0::int) < 7
   \<and> shouldProcessFile (ex_settings\<lparr>taggedFiles := [''notes/a.md'' \<mapsto> 7]\<rparr>) ex_file = Inr False
   \<and> shouldProcessFile (ex_settings\<lparr>taggedFiles := [''notes/a.md'' \<mapsto> 7]\<rparr>)
        (ex_file\<lparr>mtime := 8\<rparr>) = Inr True
   \<and> taggedFiles ex_settings (path ex_file) = None
   \<and> shouldProcessFile ex_settings ex_file = Inr True"
proof -
  let ?st = "ex_settings\<lparr>taggedFiles := [''notes/a.md'' \<mapsto> 7]\<rparr>"
  have h: "excluded (excludePatterns ?st) f = Inr False" for f
    by (simp add: ex_settings_def)
  have h0: "excluded (excludePatterns ex_settings) ex_file = Inr False"
    by (simp add: ex_settings_def)
  have t: "taggedFiles ?st (path ex_file) = Some 7" "taggedFiles ?st (path (ex_file\<lparr>mtime := 8\<rparr>)) = Some 7"
    by (simp_all add: ex_file_def)
  have n: "taggedFiles ex_settings (path ex_file) = None"
    by (simp add: ex_settings_def)
  from eligibility_dedup [OF h, of ex_file] t(1)
  have a: "shouldProcessFile ?st ex_file = Inr (7 < mtime ex_file)" by simp
  from eligibility_dedup [OF h, of "ex_file\<lparr>mtime := 8\<rparr>"] t(2)
  have b: "shouldProcessFile ?st (ex_file\<lparr>mtime := 8\<rparr>) = Inr (7 < mtime (ex_file\<lparr>mtime := 8\<rparr>))" by simp
  from eligibility_dedup [OF h0] n
  have c: "shouldProcessFile ex_settings ex_file = Inr True" by simp
  from a b c h t n show ?thesis by (simp add: ex_file_def)
qed


section \<open>Untagging a document that was never tagged\<close>

text \<open>
  Claim C9 (untagging is safe). A content that nowhere contains the marker and does not
  begin with a hashtag token is returned unchanged with \<^verbatim>\<open>wasModified\<close> false, and both
  untagging operations then leave the whole state as it is: no write, no record change.
\<close>

theorem untag_is_safe:
  assumes "\<not> sublist marker C" and "\<not> startsWithHashtag C"
  shows "untagContent C = (C, False)
       \<and> (vault w (path file) = Some C \<longrightarrow>
            untagCurrentDocument file w = w \<and> untagAllDocuments [file] w = w)"
proof -
  have u: "untagContent C = (C, False)"
    using assms by (simp add: untagContent_def isAlreadyTagged_def includesStr_iff_sublist tagPattern_test)
  then show ?thesis by (simp add: untagCurrentDocument_def)
qed

theorem untag_is_safe_witness:
  "\<not> sublist marker ''# Heading about #ml'' \<and> \<not> startsWithHashtag ''# Heading about #ml''
   \<and> untagContent ''# Heading about #ml'' = (''# Heading about #ml'', False)
   \<and> untagCurrentDocument ex_file (ex_world ''# Heading about #ml'') = ex_world ''# Heading about #ml''"
proof -
  have h1: "\<not> sublist marker ''# Heading about #ml''"
    unfolding includesStr_iff_sublist [symmetric] by code_simp
  have h2: "\<not> startsWithHashtag ''# Heading about #ml''"
    by code_simp
  have v: "vault (ex_world ''# Heading about #ml'') (path ex_file) = Some ''# Heading about #ml''"
    by (simp add: ex_world_def ex_file_def)
  from untag_is_safe [OF h1 h2, of "ex_world ''# Heading about #ml''" ex_file] v h1 h2
  show ?thesis by simp
qed

section \<open>Writes and record updates go together\<close>

text \<open>
  Claim C10 (no-op frame). When synthesis returns the very content that was read, the
  shared block and each operation built on it issue no write and leave the settings,
  so the tagging record, as they were. In general every outcome of the block is either
  such an untouched state or one write that replaced the content by a different one
  together with the refresh of the record entry: the entry never changes without a
  write that changed the document.
\<close>

theorem noop_frame:
  assumes "vault w (path file) = Some A"
  shows "(processContentWithOllama (settings w) A tags (reply e) (timestamp e) = Inr A \<longrightarrow>
            (\<forall>w'. tagAndWrite e ann file A tags w = Inr w' \<longrightarrow> untouched (during e w) w')
          \<and> (\<forall>w'. tagCurrentDocument e file tags w = Inr w'
                \<longrightarrow> untouched w w' \<or> untouched (during e w) w')
          \<and> (\<forall>w'. addTagsToDocuments [(file, e)] tags w = Inr w'
                \<longrightarrow> untouched w w' \<or> untouched (during e w) w'))
       \<and> (processContentWithOllama (settings w) A (defaultTags (settings w)) (reply e) (timestamp e)
            = Inr A \<longrightarrow>
            (\<forall>w'. autoTagFile e file w = Inr w'
                \<longrightarrow> untouched w w' \<or> untouched (during e w) w')
          \<and> (\<forall>w'. autoTagFileOnClose e file w = Inr w'
                \<longrightarrow> untouched w w' \<or> untouched (during e w) w'))
       \<and> (\<forall>w'. tagAndWrite e ann file A tags w = Inr w'
             \<longrightarrow> guardedOutcome file A (now e) (during e w) w')
       \<and> (\<forall>w'. autoTagFile e file w = Inr w'
             \<longrightarrow> untouched w w' \<or> guardedOutcome file A (now e) (during e w) w')
       \<and> (\<forall>w'. autoTagFileOnClose e file w = Inr w'
             \<longrightarrow> untouched w w' \<or> guardedOutcome file A (now e) (during e w) w')
       \<and> (\<forall>w'. tagCurrentDocument e file tags w = Inr w'
             \<longrightarrow> untouched w w' \<or> guardedOutcome file A (now e) (during e w) w')
       \<and> (\<forall>w'. addTagsToDocuments [(file, e)] tags w = Inr w'
             \<longrightarrow> untouched w w' \<or> guardedOutcome file A (now e) (during e w) w')"
proof -
  have same: "untouched (during e w) w'"
    if "processContentWithOllama (settings w) A ts (reply e) (timestamp e) = Inr A"
       and "tagAndWrite e a file A ts w = Inr w'" for a ts w'
    using tagAndWrite_outcomes [OF that(2)] that(1) by auto
  have guarded: "guardedOutcome file A (now e) (during e w) w'"
    if "tagAndWrite e a file A ts w = Inr w'" for a ts w'
    using tagAndWrite_outcomes [OF that] by (auto simp: guardedOutcome_def)
  have p1: "processContentWithOllama (settings w) A tags (reply e) (timestamp e) = Inr A \<longrightarrow>
            (\<forall>w'. tagAndWrite e ann file A tags w = Inr w' \<longrightarrow> untouched (during e w) w')
          \<and> (\<forall>w'. tagCurrentDocument e file tags w = Inr w'
                \<longrightarrow> untouched w w' \<or> untouched (during e w) w')
          \<and> (\<forall>w'. addTagsToDocuments [(file, e)] tags w = Inr w'
                \<longrightarrow> untouched w w' \<or> untouched (during e w) w')"
    using same tagCurrentDocument_outcomes addTagsToDocuments_one_outcomes assms
    by (metis option.inject)
  have p2: "processContentWithOllama (settings w) A (defaultTags (settings w)) (reply e) (timestamp e)
            = Inr A \<longrightarrow>
            (\<forall>w'. autoTagFile e file w = Inr w'
                \<longrightarrow> untouched w w' \<or> untouched (during e w) w')
          \<and> (\<forall>w'. autoTagFileOnClose e file w = Inr w'
                \<longrightarrow> untouched w w' \<or> untouched (during e w) w')"
    using same autoTagFile_outcomes autoTagFileOnClose_outcomes assms
    by (metis option.inject)
  have p3: "\<forall>w'. tagAndWrite e ann file A tags w = Inr w'
             \<longrightarrow> guardedOutcome file A (now e) (during e w) w'"
    using guarded by blast
  have p4: "\<forall>w'. autoTagFile e file w = Inr w'
             \<longrightarrow> untouched w w' \<or> guardedOutcome file A (now e) (during e w) w'"
    using guarded autoTagFile_outcomes assms by (metis option.inject)
  have p5: "\<forall>w'. autoTagFileOnClose e file w = Inr w'
             \<longrightarrow> untouched w w' \<or> guardedOutcome file A (now e) (during e w) w'"
    using guarded autoTagFileOnClose_outcomes assms by (metis option.inject)
  have p6: "\<forall>w'. tagCurrentDocument e file tags w = Inr w'
             \<longrightarrow> untouched w w' \<or> guardedOutcome file A (now e) (during e w) w'"
    using guarded tagCurrentDocument_outcomes assms by (metis option.inject)
  have p7: "\<forall>w'. addTagsToDocuments [(file, e)] tags w = Inr w'
             \<longrightarrow> untouched w w' \<or> guardedOutcome file A (now e) (during e w) w'"
    using guarded addTagsToDocuments_one_outcomes assms by (metis option.inject)
  from p1 p2 p3 p4 p5 p6 p7 show ?thesis by blast
qed

theorem noop_frame_witness:
  "vault (ex_world ''plain words'') (path ex_file) = Some ''plain words''
   \<and> processContentWithOllama (settings (ex_world ''plain words'')) ''plain words'' [''ml'']
        (reply (ex_env ''  '' id)) (timestamp (ex_env ''  '' id)) = Inr ''plain words''
   \<and> \<not> isl (tagCurrentDocument (ex_env ''  '' id) ex_file [''ml''] (ex_world ''plain words''))
   \<and> untouched (ex_world ''plain words'')
        (projr (tagCurrentDocument (ex_env ''  '' id) ex_file [''ml''] (ex_world ''plain words'')))"
proof -
  let ?e = "ex_env ''  '' id" and ?w = "ex_world ''plain words''"
  let ?r = "tagCurrentDocument ?e ex_file [''ml''] ?w"
  have h1: "vault ?w (path ex_file) = Some ''plain words''"
    by (simp add: ex_world_def ex_file_def)
  have h2: "processContentWithOllama (settings ?w) ''plain words'' [''ml''] (reply ?e) (timestamp ?e)
            = Inr ''plain words''"
    by code_simp
  have d: "during ?e ?w = ?w"
    by (simp add: ex_env_def)
  have r: "\<not> isl ?r"
    by code_simp
  then have eq: "?r = Inr (projr ?r)"
    by (cases ?r) simp_all
  from noop_frame [OF h1, of "[''ml'']" ?e] h2 eq
  have "untouched ?w (projr ?r) \<or> untouched (during ?e ?w) (projr ?r)"
    by blast
  with d h1 h2 r show ?thesis by simp
qed

end
